theory Spec2Isabelle
  imports
    Complex_Main
    "HOL-Library.Multiset"
    "HOL-Library.Sublist"
    "HOL-Library.AList"
    "HOL-Library.Product_Lexorder"
    "HOL-Library.List_Lexorder"
begin

section \<open>M-ary Huffman coding: the codec of App.tsx\<close>

text \<open>
  The repository holds two versions of the same component: \<^verbatim>\<open>src/src/App.tsx\<close> and
  \<^verbatim>\<open>src/unnamed/part_000\<close>. Their codec is the same text except for one line of
  \<^verbatim>\<open>generateMaryTree\<close>: the first names the padding leaves \<^verbatim>\<open>dummy0, dummy1, ...\<close>, the
  second \<^verbatim>\<open>z0, z1, ...\<close>; the second also publishes the tree with \<^verbatim>\<open>setTreeRoot\<close>.

  Conventions of the embedding.
  \<^item> A JavaScript string is a \<^typ>\<open>string\<close>; the input text is the list of the characters
    that \<^verbatim>\<open>for (const char of text)\<close> yields, and each symbol is the one-character string
    \<open>[c]\<close>.
  \<^item> A \<^verbatim>\<open>Map\<close> is an association list in insertion order; \<^verbatim>\<open>Map.set\<close> is
    \<^const>\<open>AList.update\<close> (an existing key keeps its place), \<^verbatim>\<open>Map.get\<close> is \<^const>\<open>map_of\<close>.
  \<^item> Frequencies are \<^typ>\<open>nat\<close>; the branching factor \<open>m\<close> is an \<^typ>\<open>int\<close>, since the
    code subtracts from it and nothing in the codec rejects a value below 2.
  \<^item> A JavaScript number is an IEEE 754 double. Counts, lengths and frequencies stay far
    below \<open>2^53\<close> and are exact; the subtractions of \<^verbatim>\<open>calculateRequiredDummies\<close>, which
    involve \<open>m\<close>, and the division and multiplication of the compression ratio are
    rounded as the double operations round.
  \<^item> Lists are unbounded: the limits of memory and of the length of an array are not
    modelled.
  \<^item> The \<^verbatim>\<open>while\<close> loop of \<^verbatim>\<open>generateMaryTree\<close> does not end for \<open>m < 2\<close> once the
    queue holds two nodes, and the loop that adds the padding leaves does not end when
    more than \<open>2^53\<close> of them are asked for. Tree construction is in the option monad,
    \<^const>\<open>None\<close> meaning that it never returns.
  \<^item> The two host functions the queue relies on are \<^verbatim>\<open>String.prototype.localeCompare\<close> and
    \<^verbatim>\<open>Array.prototype.sort\<close>. The collation of the host is a parameter \<open>ckey\<close>, the
    collation key of a string in some linear order; the sorting routine is a parameter
    \<open>srt\<close> of the queue operations, instantiated below by a stable insertion sort with
    the comparator of the source.
\<close>

subsection \<open>Tree nodes\<close>

datatype HuffmanTreeNode =
  Node (data: string) (freq: nat) (children: "HuffmanTreeNode list")

text \<open>\<^verbatim>\<open>new HuffmanTreeNode(character, frequency)\<close>: no children.\<close>

definition newNode :: "string \<Rightarrow> nat \<Rightarrow> HuffmanTreeNode" where
  "newNode character frequency = Node character frequency []"

subsection \<open>Number to string\<close>

text \<open>\<^verbatim>\<open>index.toString()\<close> and the \<^verbatim>\<open>${i}\<close> of a template: decimal digits.\<close>

definition digit_char :: "nat \<Rightarrow> char" where
  "digit_char d = char_of (48 + d)"

fun toString :: "nat \<Rightarrow> string" where
  "toString n = (if n < 10 then [digit_char n] else toString (n div 10) @ [digit_char (n mod 10)])"

declare toString.simps [simp del]

subsection \<open>The priority queue\<close>

text \<open>
  \<^verbatim>\<open>a.localeCompare(b)\<close>: negative, zero or positive, by the collation keys of the host.
\<close>

definition localeCompare :: "(string \<Rightarrow> 'k::linorder) \<Rightarrow> string \<Rightarrow> string \<Rightarrow> int" where
  "localeCompare ckey a b = (if ckey a < ckey b then - 1 else if ckey b < ckey a then 1 else 0)"

text \<open>The comparator of \<^verbatim>\<open>PriorityQueue.sort\<close>.\<close>

definition compare_nodes ::
  "(string \<Rightarrow> 'k::linorder) \<Rightarrow> HuffmanTreeNode \<Rightarrow> HuffmanTreeNode \<Rightarrow> int" where
  "compare_nodes ckey a b =
     (if freq a \<noteq> freq b then int (freq a) - int (freq b)
      else localeCompare ckey (data a) (data b))"

text \<open>
  \<^verbatim>\<open>Array.prototype.sort(compareFn)\<close>, which ECMAScript 2019 requires to be stable:
  insertion sort, an element going in front of the first one it does not exceed.
\<close>

fun insert_sorted :: "('a \<Rightarrow> 'a \<Rightarrow> int) \<Rightarrow> 'a \<Rightarrow> 'a list \<Rightarrow> 'a list" where
  "insert_sorted cmp x [] = [x]"
| "insert_sorted cmp x (y # ys) =
     (if cmp x y \<le> 0 then x # y # ys else y # insert_sorted cmp x ys)"

definition array_sort :: "('a \<Rightarrow> 'a \<Rightarrow> int) \<Rightarrow> 'a list \<Rightarrow> 'a list" where
  "array_sort cmp xs = foldr (insert_sorted cmp) xs []"

text \<open>\<^verbatim>\<open>PriorityQueue.sort()\<close>.\<close>

definition sort_nodes ::
  "(string \<Rightarrow> 'k::linorder) \<Rightarrow> HuffmanTreeNode list \<Rightarrow> HuffmanTreeNode list" where
  "sort_nodes ckey nodes = array_sort (compare_nodes ckey) nodes"

text \<open>\<^verbatim>\<open>enqueue\<close>: push, then sort. \<^verbatim>\<open>dequeue\<close>: \<^verbatim>\<open>shift()\<close>, undefined on an empty array.\<close>

definition enqueue ::
  "(HuffmanTreeNode list \<Rightarrow> HuffmanTreeNode list) \<Rightarrow> HuffmanTreeNode list \<Rightarrow> HuffmanTreeNode
     \<Rightarrow> HuffmanTreeNode list" where
  "enqueue srt nodes node = srt (nodes @ [node])"

definition dequeue :: "HuffmanTreeNode list \<Rightarrow> HuffmanTreeNode option \<times> HuffmanTreeNode list" where
  "dequeue nodes = (case nodes of [] \<Rightarrow> (None, []) | n # rest \<Rightarrow> (Some n, rest))"

subsection \<open>Numbers\<close>

text \<open>
  The number of binary digits of a positive integer, and the integer nearest to a
  rational, a tie going to the even one.
\<close>

function bitLength :: "int \<Rightarrow> nat" where
  "bitLength n = (if n \<le> 0 then 0 else Suc (bitLength (n div 2)))"
  by pat_completeness auto

termination
  by (relation "measure nat") auto

declare bitLength.simps [simp del]

definition roundHalfEven :: "rat \<Rightarrow> int" where
  "roundHalfEven y =
     (let f = \<lfloor>y\<rfloor>; d = y - of_int f
      in if d < 1 / 2 then f else if 1 / 2 < d then f + 1 else if even f then f else f + 1)"

text \<open>
  The values of the integer computations of the codec: an integer, \<^verbatim>\<open>NaN\<close> or an
  infinity. (The sign of a zero is not kept: no operation of the codec tells \<open>-0\<close> from
  \<open>0\<close>.)
\<close>

datatype jsnum = Num int | NaN | PosInfinity | NegInfinity

text \<open>
  The double nearest to an integer. Integers up to \<open>2^53\<close> in magnitude are doubles.
  Beyond, an integer of \<open>b\<close> binary digits is rounded to a multiple of \<open>2^(b - 53)\<close>, a tie
  going to the even multiple, and to an infinity when the result reaches \<open>2^1024\<close>.
\<close>

definition roundInt :: "int \<Rightarrow> jsnum" where
  "roundInt x =
     (if \<bar>x\<bar> \<le> 2 ^ 53 then Num x
      else
        let u = 2 ^ (bitLength \<bar>x\<bar> - 53);
            r = roundHalfEven (of_int \<bar>x\<bar> / of_int u) * u
        in if 2 ^ 1024 \<le> r then (if 0 < x then PosInfinity else NegInfinity)
           else Num (sgn x * r))"

text \<open>The operators \<^verbatim>\<open>-\<close> and \<^verbatim>\<open>%\<close> (the remainder has the sign of the dividend).\<close>

fun js_minus :: "jsnum \<Rightarrow> jsnum \<Rightarrow> jsnum" where
  "js_minus (Num a) (Num b) = roundInt (a - b)"
| "js_minus (Num a) PosInfinity = NegInfinity"
| "js_minus (Num a) NegInfinity = PosInfinity"
| "js_minus PosInfinity (Num b) = PosInfinity"
| "js_minus PosInfinity NegInfinity = PosInfinity"
| "js_minus NegInfinity (Num b) = NegInfinity"
| "js_minus NegInfinity PosInfinity = NegInfinity"
| "js_minus PosInfinity PosInfinity = NaN"
| "js_minus NegInfinity NegInfinity = NaN"
| "js_minus NaN y = NaN"
| "js_minus x NaN = NaN"

fun js_rem :: "jsnum \<Rightarrow> jsnum \<Rightarrow> jsnum" where
  "js_rem (Num a) (Num b) = (if b = 0 then NaN else Num (sgn a * (\<bar>a\<bar> mod \<bar>b\<bar>)))"
| "js_rem (Num a) PosInfinity = Num a"
| "js_rem (Num a) NegInfinity = Num a"
| "js_rem x y = NaN"

text \<open>
  The double nearest to a rational, for the division and the multiplication of the
  compression ratio: \<open>53\<close> significant binary digits, a tie going to the even
  significand. (The quotient, the product and the ratio are zero or lie inside the normal
  range of the doubles, so neither subnormal numbers nor overflow are modelled here.)
\<close>

definition pow2 :: "int \<Rightarrow> rat" where
  "pow2 e = (if 0 \<le> e then 2 ^ nat e else 1 / 2 ^ nat (- e))"

definition roundDouble :: "rat \<Rightarrow> rat" where
  "roundDouble x =
     (if x = 0 then 0
      else
        let (p, q) = quotient_of \<bar>x\<bar>;
            e0 = int (bitLength p) - int (bitLength q);
            e = (if pow2 e0 \<le> \<bar>x\<bar> then e0 else e0 - 1);
            u = pow2 (e - 52)
        in sgn x * of_int (roundHalfEven (\<bar>x\<bar> / u)) * u)"

definition js_divide :: "rat \<Rightarrow> rat \<Rightarrow> rat" where
  "js_divide a b = roundDouble (a / b)"

definition js_times :: "rat \<Rightarrow> rat \<Rightarrow> rat" where
  "js_times a b = roundDouble (a * b)"

subsection \<open>Padding\<close>

text \<open>
  \<^verbatim>\<open>calculateRequiredDummies(symbolCount, m)\<close>. The arguments are numbers of the program,
  the size of the queue and \<open>m\<close>: integers that are doubles.
\<close>

definition calculateRequiredDummies :: "int \<Rightarrow> int \<Rightarrow> jsnum" where
  "calculateRequiredDummies symbolCount m =
     (let remainder = js_rem (js_minus (Num symbolCount) (Num 1)) (js_minus (Num m) (Num 1))
      in if remainder = Num 0 then Num 0
         else js_minus (js_minus (Num m) (Num 1)) remainder)"

subsection \<open>Tree construction\<close>

datatype version = AppTsx | Part000

text \<open>The name of the \<open>i\<close>-th padding leaf: \<^verbatim>\<open>`dummy${i}`\<close> in App.tsx, \<^verbatim>\<open>`z${i}`\<close> in part_000.\<close>

definition dummyName :: "version \<Rightarrow> nat \<Rightarrow> string" where
  "dummyName v i = (case v of AppTsx \<Rightarrow> ''dummy'' @ toString i | Part000 \<Rightarrow> ''z'' @ toString i)"

text \<open>
  The inner \<^verbatim>\<open>for\<close> loop of a merge: \<open>n\<close> times, dequeue a child and, if there is one,
  append it to the children and add its frequency.
\<close>

fun takeChildren ::
  "nat \<Rightarrow> HuffmanTreeNode list \<Rightarrow> HuffmanTreeNode list \<Rightarrow> nat
     \<Rightarrow> HuffmanTreeNode list \<times> nat \<times> HuffmanTreeNode list" where
  "takeChildren 0 pq cs totalFreq = (cs, totalFreq, pq)"
| "takeChildren (Suc n) pq cs totalFreq =
     (case dequeue pq of
        (None, pq') \<Rightarrow> takeChildren n pq' cs totalFreq
      | (Some child, pq') \<Rightarrow> takeChildren n pq' (cs @ [child]) (totalFreq + freq child))"

text \<open>One pass of the \<^verbatim>\<open>while\<close> loop.\<close>

definition mergeStep ::
  "(HuffmanTreeNode list \<Rightarrow> HuffmanTreeNode list) \<Rightarrow> int \<Rightarrow> HuffmanTreeNode list
     \<Rightarrow> HuffmanTreeNode list" where
  "mergeStep srt m pq =
     (let numNodes = min m (int (length pq));
          (cs, totalFreq, pq') = takeChildren (nat numNodes) pq [] 0
      in enqueue srt pq' (Node ''internal'' totalFreq cs))"

partial_function (option) buildLoop ::
  "(HuffmanTreeNode list \<Rightarrow> HuffmanTreeNode list) \<Rightarrow> int \<Rightarrow> HuffmanTreeNode list
     \<Rightarrow> HuffmanTreeNode list option" where
  "buildLoop srt m pq =
     (if length pq > 1 then buildLoop srt m (mergeStep srt m pq) else Some pq)"

declare buildLoop.simps [code]

text \<open>The queue after the leaves of the symbols, and after the padding leaves.\<close>

definition enqueueLeaves ::
  "(HuffmanTreeNode list \<Rightarrow> HuffmanTreeNode list) \<Rightarrow> (string \<times> nat) list
     \<Rightarrow> HuffmanTreeNode list" where
  "enqueueLeaves srt frequencies =
     fold (\<lambda>(char, fr) pq. enqueue srt pq (newNode char fr)) frequencies []"

text \<open>
  The loop \<^verbatim>\<open>for (let i = 0; i < dummiesNeeded; i++)\<close>. It does nothing when
  \<^verbatim>\<open>dummiesNeeded\<close> is \<^verbatim>\<open>NaN\<close> or not positive. The counter is a double: \<open>2^53 + 1\<close>
  rounds to \<open>2^53\<close>, so the counter stays at \<open>2^53\<close> and the loop does not end when
  \<^verbatim>\<open>dummiesNeeded\<close> is above \<open>2^53\<close>.
\<close>

definition enqueueDummies ::
  "(HuffmanTreeNode list \<Rightarrow> HuffmanTreeNode list) \<Rightarrow> version \<Rightarrow> jsnum
     \<Rightarrow> HuffmanTreeNode list \<Rightarrow> HuffmanTreeNode list option" where
  "enqueueDummies srt v dummiesNeeded pq =
     (case dummiesNeeded of
        Num d \<Rightarrow>
          if d \<le> 2 ^ 53
          then Some (fold (\<lambda>i pq. enqueue srt pq (newNode (dummyName v i) 0)) [0 ..< nat d] pq)
          else None
      | NaN \<Rightarrow> Some pq
      | PosInfinity \<Rightarrow> None
      | NegInfinity \<Rightarrow> Some pq)"

text \<open>
  \<^verbatim>\<open>generateMaryTree\<close>. The outer option is \<^const>\<open>None\<close> when a loop does not end; the
  inner one is \<^verbatim>\<open>null\<close> (or the \<^verbatim>\<open>undefined\<close> of a dequeue on an empty queue).
\<close>

definition generateMaryTree ::
  "(HuffmanTreeNode list \<Rightarrow> HuffmanTreeNode list) \<Rightarrow> version \<Rightarrow> (string \<times> nat) list \<Rightarrow> int
     \<Rightarrow> HuffmanTreeNode option option" where
  "generateMaryTree srt v frequencies m =
     (let pq = enqueueLeaves srt frequencies in
      if length pq = 0 then Some None
      else if length pq = 1 then Some (fst (dequeue pq))
      else
        let dummiesNeeded = calculateRequiredDummies (int (length pq)) m
        in case enqueueDummies srt v dummiesNeeded pq of
             None \<Rightarrow> None
           | Some pq1 \<Rightarrow> map_option (\<lambda>pq2. fst (dequeue pq2)) (buildLoop srt m pq1))"

subsection \<open>Code assignment\<close>

definition startsWith :: "string \<Rightarrow> string \<Rightarrow> bool" where
  "startsWith s p = prefix p s"

text \<open>The test of \<^verbatim>\<open>generateCodes\<close> for "a leaf that is not a dummy".\<close>

definition isSymbol :: "string \<Rightarrow> bool" where
  "isSymbol d \<longleftrightarrow> d \<noteq> ''internal'' \<and> \<not> startsWith d ''dummy''"

fun generateCodes ::
    "HuffmanTreeNode \<Rightarrow> string \<Rightarrow> (string \<times> string) list \<Rightarrow> (string \<times> string) list"
  and generateCodesEach ::
    "HuffmanTreeNode list \<Rightarrow> nat \<Rightarrow> string \<Rightarrow> (string \<times> string) list \<Rightarrow> (string \<times> string) list"
where
  "generateCodes (Node d f cs) currentCode codes =
     (if isSymbol d
      then AList.update d (if currentCode = [] then ''0'' else currentCode) codes
      else generateCodesEach cs 0 currentCode codes)"
| "generateCodesEach [] index currentCode codes = codes"
| "generateCodesEach (child # rest) index currentCode codes =
     generateCodesEach rest (Suc index) currentCode
       (generateCodes child (currentCode @ toString index) codes)"

text \<open>\<^verbatim>\<open>generateCodes(root, "", codes)\<close> with \<^verbatim>\<open>root\<close> possibly \<^verbatim>\<open>null\<close>.\<close>

definition generateCodesRoot ::
  "HuffmanTreeNode option \<Rightarrow> (string \<times> string) list \<Rightarrow> (string \<times> string) list" where
  "generateCodesRoot node codes =
     (case node of None \<Rightarrow> codes | Some n \<Rightarrow> generateCodes n [] codes)"

subsection \<open>The component: frequencies, encoding, statistics\<close>

definition calculateFrequencies :: "string \<Rightarrow> (string \<times> nat) list" where
  "calculateFrequencies text =
     fold (\<lambda>char fr. AList.update [char] ((case map_of fr [char] of None \<Rightarrow> 0 | Some n \<Rightarrow> n) + 1) fr)
       text []"

text \<open>
  The loop that concatenates the codes: a symbol without a code, or with the empty code,
  adds nothing.
\<close>

definition concatCodes :: "(string \<times> string) list \<Rightarrow> string \<Rightarrow> string" where
  "concatCodes codes text =
     fold (\<lambda>char encoded.
         (case map_of codes [char] of
            None \<Rightarrow> encoded
          | Some code \<Rightarrow> if code \<noteq> [] then encoded @ code else encoded))
       text []"

text \<open>
  \<^verbatim>\<open>Number(x.toFixed(2))\<close> for a double \<open>x\<close>: \<^verbatim>\<open>toFixed\<close> takes the integer \<open>n\<close> for which
  \<open>n / 100\<close> is nearest to the exact value of \<open>\<bar>x\<bar>\<close>, the larger one on a tie, and
  \<^verbatim>\<open>Number\<close> reads the decimal back as the nearest double.
\<close>

definition toFixed2 :: "rat \<Rightarrow> rat" where
  "toFixed2 x = roundDouble (sgn x * of_int \<lfloor>\<bar>x\<bar> * 100 + 1 / 2\<rfloor> / 100)"

text \<open>
  The compression ratio,
  \<^verbatim>\<open>Number((((originalBits - compressedBits) / originalBits) * 100).toFixed(2))\<close>.
\<close>

definition compressionRatioOf :: "int \<Rightarrow> int \<Rightarrow> rat" where
  "compressionRatioOf originalBits compressedBits =
     toFixed2 (js_times (js_divide (of_int (originalBits - compressedBits)) (of_int originalBits)) 100)"

record app_state =
  encodedText :: string
  compressionRatio :: rat
  huffmanCodes :: "(string \<times> string) list"
  frequencies :: "(string \<times> nat) list"
  treeRoot :: "HuffmanTreeNode option"

text \<open>The values of \<^verbatim>\<open>useState\<close> at the first render.\<close>

definition initial_state :: app_state where
  "initial_state =
     \<lparr>encodedText = [], compressionRatio = 0, huffmanCodes = [], frequencies = [],
      treeRoot = None\<rparr>"

text \<open>
  \<^verbatim>\<open>encode(text, m)\<close>: the string returned and the state after the \<^verbatim>\<open>set...\<close> calls; \<^const>\<open>None\<close>
  when tree construction does not return.
\<close>

definition encode ::
  "(HuffmanTreeNode list \<Rightarrow> HuffmanTreeNode list) \<Rightarrow> version \<Rightarrow> string \<Rightarrow> int \<Rightarrow> app_state
     \<Rightarrow> (string \<times> app_state) option" where
  "encode srt v text m s =
     (if text = [] then Some ([], s)
      else
        let fr = calculateFrequencies text in
        case generateMaryTree srt v fr m of
          None \<Rightarrow> None
        | Some rootNode \<Rightarrow>
            let codes = generateCodesRoot rootNode [];
                encoded = concatCodes codes text;
                originalBits = int (length text) * 8;
                compressedBits = int (length encoded);
                ratio = compressionRatioOf originalBits compressedBits
            in Some (encoded,
                 s\<lparr>frequencies := fr,
                   treeRoot := (case v of AppTsx \<Rightarrow> treeRoot s | Part000 \<Rightarrow> rootNode),
                   huffmanCodes := codes,
                   compressionRatio := ratio\<rparr>))"

text \<open>The body of the effect: encode, then \<^verbatim>\<open>setEncodedText\<close>.\<close>

definition runEffect ::
  "(HuffmanTreeNode list \<Rightarrow> HuffmanTreeNode list) \<Rightarrow> version \<Rightarrow> string \<Rightarrow> int \<Rightarrow> app_state
     \<Rightarrow> app_state option" where
  "runEffect srt v text m s =
     map_option (\<lambda>(encoded, s'). s'\<lparr>encodedText := encoded\<rparr>) (encode srt v text m s)"

text \<open>The collation by code units, for concrete runs.\<close>

definition unitKey :: "string \<Rightarrow> nat list" where
  "unitKey s = map of_char s"

text \<open>
  A collation that files the letter \<open>\<auml>\<close> (code unit \<open>228\<close>) under \<open>a\<close>, the accent counting
  only between strings of the same base letters: \<open>\<auml>\<close> comes before \<open>z\<close>, as in the German
  collation, where the collation by code units puts it after \<open>z\<close>, as the Swedish one does.
\<close>

definition accentKey :: "string \<Rightarrow> nat list \<times> nat list" where
  "accentKey s =
     (map (\<lambda>c. if c = CHR 0xE4 then of_char CHR ''a'' else of_char c) s,
      map (\<lambda>c. if c = CHR 0xE4 then 1 else 0) s)"

subsection \<open>Decoding\<close>

text \<open>
  Modelled from the spec: \<^verbatim>\<open>decode\<close>, which the repository does not implement (it has no
  decoder in either version). Section 4.5 of the specification: the decoder consumes the
  digits greedily, walking the trie of the code table from the root; each time the path
  read is the code of a symbol it emits the symbol and restarts from the root. It fails
  with a \<open>DecodeError\<close>, carrying the offset, when the digits end in the middle of a
  path, when a digit is not below \<open>M\<close>, or when the path leaves the trie.
\<close>

datatype decode_error = DecodeError nat

fun decodeWalk ::
  "nat \<Rightarrow> (string \<times> string) list \<Rightarrow> string \<Rightarrow> nat \<Rightarrow> string \<Rightarrow> decode_error + string list" where
  "decodeWalk M table path offset [] = (if path = [] then Inr [] else Inl (DecodeError offset))"
| "decodeWalk M table path offset (d # ds) =
     (if d \<notin> set (map digit_char [0 ..< M]) then Inl (DecodeError offset)
      else
        case find (\<lambda>e. snd e = path @ [d]) table of
          Some e \<Rightarrow>
            (case decodeWalk M table [] (Suc offset) ds of
               Inl err \<Rightarrow> Inl err
             | Inr syms \<Rightarrow> Inr (fst e # syms))
        | None \<Rightarrow>
            if list_ex (\<lambda>e. prefix (path @ [d]) (snd e)) table
            then decodeWalk M table (path @ [d]) (Suc offset) ds
            else Inl (DecodeError offset))"

definition decode :: "nat \<Rightarrow> (string \<times> string) list \<Rightarrow> string \<Rightarrow> decode_error + string list" where
  "decode M table payload = decodeWalk M table [] 0 payload"

section \<open>Notions used in the proofs\<close>

text \<open>
  The assignments that \<^const>\<open>generateCodes\<close> makes, in the order of the traversal: the
  label and the code of every node at which the traversal stops.
\<close>

fun assigned :: "HuffmanTreeNode \<Rightarrow> string \<Rightarrow> (string \<times> string) list"
  and assignedEach :: "HuffmanTreeNode list \<Rightarrow> nat \<Rightarrow> string \<Rightarrow> (string \<times> string) list"
where
  "assigned (Node d f cs) currentCode =
     (if isSymbol d then [(d, if currentCode = [] then ''0'' else currentCode)]
      else assignedEach cs 0 currentCode)"
| "assignedEach [] index currentCode = []"
| "assignedEach (child # rest) index currentCode =
     assigned child (currentCode @ toString index) @ assignedEach rest (Suc index) currentCode"

text \<open>A sequence of \<^verbatim>\<open>Map.set\<close> calls.\<close>

definition setAll :: "(string \<times> string) list \<Rightarrow> (string \<times> string) list \<Rightarrow> (string \<times> string) list" where
  "setAll kvs codes = fold (\<lambda>(k, v). AList.update k v) kvs codes"

text \<open>The labels of those nodes, and their multiset over the trees of a queue.\<close>

fun leafSyms :: "HuffmanTreeNode \<Rightarrow> string list" where
  "leafSyms (Node d f cs) = (if isSymbol d then [d] else concat (map leafSyms cs))"

definition forestSyms :: "HuffmanTreeNode list \<Rightarrow> string multiset" where
  "forestSyms pq = (\<Sum>t\<in>#mset pq. mset (leafSyms t))"

text \<open>
  The shape of the trees in the queue: a node with children is labelled \<open>internal\<close>, has
  exactly \<open>m\<close> children, and so on below it. \<open>strictMary\<close> keeps the arity only.
\<close>

fun wfTree :: "nat \<Rightarrow> HuffmanTreeNode \<Rightarrow> bool" where
  "wfTree m (Node d f cs) \<longleftrightarrow>
     cs = [] \<or> (d = ''internal'' \<and> length cs = m \<and> (\<forall>c\<in>set cs. wfTree m c))"


text \<open>A sorting routine returns a permutation of its argument.\<close>

definition permSort :: "(HuffmanTreeNode list \<Rightarrow> HuffmanTreeNode list) \<Rightarrow> bool" where
  "permSort srt \<longleftrightarrow> (\<forall>xs. mset (srt xs) = mset xs)"

text \<open>
  The invariant of the \<^verbatim>\<open>while\<close> loop: the queue is not empty, its length is \<open>1\<close>
  modulo \<open>m - 1\<close>, and its trees have the shape above.
\<close>

definition queueInv :: "int \<Rightarrow> HuffmanTreeNode list \<Rightarrow> bool" where
  "queueInv m pq \<longleftrightarrow>
     pq \<noteq> [] \<and> (int (length pq) - 1) mod (m - 1) = 0 \<and> (\<forall>t\<in>set pq. wfTree (nat m) t)"

text \<open>A string of digits below \<open>m\<close>.\<close>

definition digitString :: "nat \<Rightarrow> string \<Rightarrow> bool" where
  "digitString m code \<longleftrightarrow> (\<forall>ch\<in>set code. \<exists>j<m. ch = digit_char j)"

text \<open>
  The key by which the comparator of the queue orders nodes (frequency, then collation
  key of the label, lexicographically), and the contract of ECMAScript's
  \<^verbatim>\<open>Array.prototype.sort\<close> for a comparator \<open>cmp\<close>: the result is a permutation of the
  array, in ascending order of \<open>cmp\<close>, and elements that compare equal keep their
  order.
\<close>

definition nodeKey :: "(string \<Rightarrow> 'k::linorder) \<Rightarrow> HuffmanTreeNode \<Rightarrow> nat \<times> 'k" where
  "nodeKey ckey n = (freq n, ckey (data n))"

definition sortContract ::
  "(HuffmanTreeNode \<Rightarrow> HuffmanTreeNode \<Rightarrow> int)
     \<Rightarrow> (HuffmanTreeNode list \<Rightarrow> HuffmanTreeNode list) \<Rightarrow> bool" where
  "sortContract cmp srt \<longleftrightarrow>
     (\<forall>xs. mset (srt xs) = mset xs
         \<and> sorted_wrt (\<lambda>a b. cmp a b \<le> 0) (srt xs)
         \<and> (\<forall>k. filter (\<lambda>x. cmp k x = 0) (srt xs) = filter (\<lambda>x. cmp k x = 0) xs))"

section \<open>Properties\<close>

subsection \<open>Padding\<close>

lemma roundInt_exact: "\<bar>x\<bar> \<le> 2 ^ 53 \<Longrightarrow> roundInt x = Num x"
  by (simp add: roundInt_def)

lemma requiredDummies_spec:
  assumes "2 \<le> N" and "N \<le> 2 ^ 53" and "2 \<le> M" and "M \<le> 2 ^ 53"
  shows "\<exists>p. calculateRequiredDummies N M = Num p
           \<and> p = (if (N - 1) mod (M - 1) = 0 then 0 else (M - 1) - (N - 1) mod (M - 1))
           \<and> 0 \<le> p \<and> p \<le> 2 ^ 53
           \<and> (N + p - 1) mod (M - 1) = 0"
proof -
  let ?r = "(N - 1) mod (M - 1)"
  from assms have pos: "0 < M - 1" and nn: "0 < N - 1" by simp_all
  have bound: "0 \<le> ?r" "?r < M - 1"
    using pos by simp_all
  have n1: "roundInt (N - 1) = Num (N - 1)"
    using assms by (intro roundInt_exact) simp
  have m1: "roundInt (M - 1) = Num (M - 1)"
    using assms by (intro roundInt_exact) simp
  have r1: "roundInt (M - 1 - ?r) = Num (M - 1 - ?r)"
    using assms bound by (intro roundInt_exact) simp
  have "sgn (N - 1) * (\<bar>N - 1\<bar> mod \<bar>M - 1\<bar>) = ?r"
    using pos nn by simp
  then have rem: "js_rem (Num (N - 1)) (Num (M - 1)) = Num ?r"
    using pos by simp
  have run: "calculateRequiredDummies N M
               = (if Num ?r = Num 0 then Num 0 else js_minus (Num (M - 1)) (Num ?r))"
    by (simp only: calculateRequiredDummies_def js_minus.simps(1) n1 m1 rem Let_def)
  show ?thesis
  proof (cases "?r = 0")
    case True
    have "calculateRequiredDummies N M = Num 0"
      by (simp only: run True simp_thms if_True)
    moreover have "(N + 0 - 1) mod (M - 1) = 0"
      using True by simp
    ultimately have "calculateRequiredDummies N M = Num 0
           \<and> 0 = (if (N - 1) mod (M - 1) = 0 then 0 else (M - 1) - (N - 1) mod (M - 1))
           \<and> (0::int) \<le> 0 \<and> (0::int) \<le> 2 ^ 53
           \<and> (N + 0 - 1) mod (M - 1) = 0"
      using True by simp
    then show ?thesis
      by (rule exI [of _ 0])
  next
    case False
    have eq: "N + (M - 1 - ?r) - 1 = (N - 1 - ?r) + (M - 1)"
      by simp
    have "(N - 1 - ?r) mod (M - 1) = 0"
      by (simp add: minus_mod_eq_mult_div)
    then have key: "(N + (M - 1 - ?r) - 1) mod (M - 1) = 0"
      by (simp only: eq mod_add_self2)
    have "Num ?r \<noteq> Num 0"
      using False by simp
    then have "calculateRequiredDummies N M = Num (M - 1 - ?r)"
      by (simp only: run if_False js_minus.simps(1) r1)
    moreover have "0 \<le> M - 1 - ?r" and "M - 1 - ?r \<le> 2 ^ 53"
      using bound assms by linarith+
    moreover have "M - 1 - ?r = (if ?r = 0 then 0 else (M - 1) - ?r)"
      using False by simp
    ultimately have "calculateRequiredDummies N M = Num (M - 1 - ?r)
           \<and> M - 1 - ?r = (if (N - 1) mod (M - 1) = 0 then 0 else (M - 1) - (N - 1) mod (M - 1))
           \<and> 0 \<le> M - 1 - ?r \<and> M - 1 - ?r \<le> 2 ^ 53
           \<and> (N + (M - 1 - ?r) - 1) mod (M - 1) = 0"
      using key by (intro conjI)
    then show ?thesis
      by (rule exI [of _ "M - 1 - ?r"])
  qed
qed

text \<open>
  Claim C3, amended. For integers \<open>N\<close> and \<open>M\<close> with \<open>2 \<le> N \<le> 2^53\<close> and \<open>2 \<le> M \<le> 2^53\<close>,
  \<^const>\<open>calculateRequiredDummies\<close> returns the padding count of the specification, \<open>0\<close> when
  \<open>(N - 1) mod (M - 1) = 0\<close> and \<open>(M - 1) - (N - 1) mod (M - 1)\<close> otherwise, and with it
  \<open>(N + padding - 1) mod (M - 1) = 0\<close>.
\<close>

theorem padding_correct:
  assumes "2 \<le> N" and "N \<le> 2 ^ 53" and "2 \<le> M" and "M \<le> 2 ^ 53"
  shows "\<exists>p. calculateRequiredDummies N M = Num p
           \<and> p = (if (N - 1) mod (M - 1) = 0 then 0 else (M - 1) - (N - 1) mod (M - 1))
           \<and> 0 \<le> p
           \<and> (N + p - 1) mod (M - 1) = 0"
  using requiredDummies_spec [OF assms] by (elim exE conjE) (intro exI conjI, assumption+)

theorem padding_correct_witness:
  "(2::int) \<le> 4 \<and> (4::int) \<le> 2 ^ 53 \<and> (2::int) \<le> 3 \<and> (3::int) \<le> 2 ^ 53
     \<and> (\<exists>p. calculateRequiredDummies 4 3 = Num p
           \<and> p = (if (4 - 1) mod (3 - 1) = (0::int) then 0 else (3 - 1) - (4 - 1) mod (3 - 1))
           \<and> 0 \<le> p
           \<and> (4 + p - 1) mod (3 - 1) = 0)
     \<and> calculateRequiredDummies 4 3 = Num 1
     \<and> (4 + 1 - 1) mod (3 - 1) = (0::int)"
proof -
  have h1: "(2::int) \<le> 4" and h2: "(4::int) \<le> 2 ^ 53"
    and h3: "(2::int) \<le> 3" and h4: "(3::int) \<le> 2 ^ 53"
    by simp_all
  have run: "calculateRequiredDummies 4 3 = Num 1"
    by code_simp
  have congruence: "(4 + 1 - 1) mod (3 - 1) = (0::int)"
    by simp
  from h1 h2 h3 h4 padding_correct [OF h1 h2 h3 h4] run congruence
  show ?thesis by (intro conjI)
qed

text \<open>
  Claim C3 as stated, for every \<open>N \<ge> 2\<close> and \<open>M \<ge> 2\<close>, fails beyond \<open>2^53\<close>, where the
  subtractions of the code are rounded. For \<open>M = 2^53 + 2\<close> the difference \<open>M - 1\<close> rounds to
  \<open>2^53\<close>, and with \<open>N = 2\<close> the code returns \<open>2^53 - 1\<close>, which leaves the remainder \<open>2^53\<close>
  and not \<open>0\<close>. For \<open>N = 2^53 + 2\<close> the difference \<open>N - 1\<close> rounds to \<open>2^53\<close>, and with \<open>M = 3\<close>
  the code returns \<open>0\<close>, which leaves the remainder \<open>1\<close>.
\<close>

theorem padding_fails_beyond_2_53:
  "calculateRequiredDummies 2 9007199254740994 = Num 9007199254740991
   \<and> (2 + 9007199254740991 - 1) mod (9007199254740994 - 1) = (9007199254740992::int)
   \<and> calculateRequiredDummies 9007199254740994 3 = Num 0
   \<and> (9007199254740994 + 0 - 1) mod (3 - 1) = (1::int)"
  by code_simp

subsection \<open>A text of one symbol\<close>

lemma compressionRatio_aaaa: "compressionRatioOf 32 4 = 175 / 2"
  by code_simp

text \<open>
  The ratio is rounded as the doubles are. For \<open>160\<close> original and \<open>63\<close> compressed bits
  (the text \<open>aaabbbcccddeeffgghhi\<close> with \<open>M = 2\<close>) the product \<open>97 / 160 * 100\<close> is the
  double just below \<open>60.625\<close>, and the ratio is the double nearest to \<open>60.62\<close>, where the
  exact quotient would give \<open>60.63\<close>.
\<close>

lemma compressionRatio_rounded:
  "js_times (js_divide 97 160) 100 < 60625 / 1000
   \<and> compressionRatioOf 160 63 = roundDouble (6062 / 100)
   \<and> map_option (compressionRatio \<circ> snd)
         (encode (sort_nodes unitKey) AppTsx ''aaabbbcccddeeffgghhi'' 2 initial_state)
       = Some (roundDouble (6062 / 100))"
  by code_simp

lemma array_sort_single: "array_sort cmp [x] = [x]"
  by (simp add: array_sort_def)

text \<open>
  Claim C7. For the text \<open>aaaa\<close> with \<open>M = 3\<close>, in either version, under any collation
  and from any state, \<^const>\<open>encode\<close> returns \<open>0000\<close>, publishes the code table
  \<open>{a: 0}\<close> and the ratio \<open>(32 - 4) / 32 * 100 = 87.50\<close>.
\<close>

theorem single_symbol_aaaa:
  "\<exists>s'. encode (sort_nodes ckey) v ''aaaa'' 3 s = Some (''0000'', s')
        \<and> huffmanCodes s' = [(''a'', ''0'')]
        \<and> compressionRatio s' = (32 - 4) / 32 * 100
        \<and> compressionRatio s' = 8750 / 100"
  by (simp add: encode_def calculateFrequencies_def generateMaryTree_def enqueueLeaves_def
      enqueue_def sort_nodes_def array_sort_single newNode_def dequeue_def generateCodesRoot_def
      isSymbol_def startsWith_def concatCodes_def Let_def compressionRatio_aaaa)

subsection \<open>Padding leaves in the code table of part_000\<close>

text \<open>
  Claim C4 (fails on \<^verbatim>\<open>src/unnamed/part_000\<close>). The text \<open>abcd\<close> with \<open>M = 3\<close> needs one
  padding leaf. part_000 names it \<open>z0\<close>, \<^verbatim>\<open>generateCodes\<close> still looks for the prefix
  \<open>dummy\<close>, and the padding leaf receives the code \<open>20\<close> in the published table.
  App.tsx, which names the leaf \<open>dummy0\<close>, publishes the table without it.
\<close>

theorem part000_dummy_gets_code:
  "map_option (huffmanCodes \<circ> snd) (encode (sort_nodes unitKey) Part000 ''abcd'' 3 initial_state)
     = Some [(''c'', ''0''), (''d'', ''1''), (''z0'', ''20''), (''a'', ''21''), (''b'', ''22'')]
   \<and> map_option (huffmanCodes \<circ> snd) (encode (sort_nodes unitKey) AppTsx ''abcd'' 3 initial_state)
     = Some [(''c'', ''0''), (''d'', ''1''), (''a'', ''21''), (''b'', ''22'')]"
  by code_simp

subsection \<open>The empty text\<close>

lemma encode_empty: "encode srt v [] m s = Some ([], s)"
  by (simp add: encode_def)

text \<open>
  Claim C10 (fails on the code). \<^const>\<open>encode\<close> returns the empty string for the empty text
  before any \<^verbatim>\<open>set...\<close> call, so the table and the ratio of the text encoded before stay
  published: after the text \<open>a\<close>, the effect for the empty text clears the encoded text
  and leaves the table \<open>{a: 0}\<close>, the frequencies and the ratio \<open>87.5\<close>.
\<close>

theorem empty_text_keeps_stale_state:
  "runEffect (sort_nodes unitKey) AppTsx ''a'' 3 initial_state
     = Some \<lparr>encodedText = ''0'', compressionRatio = 875 / 10, huffmanCodes = [(''a'', ''0'')],
             frequencies = [(''a'', 1)], treeRoot = None\<rparr>
   \<and> runEffect (sort_nodes unitKey) AppTsx [] 3
       \<lparr>encodedText = ''0'', compressionRatio = 875 / 10, huffmanCodes = [(''a'', ''0'')],
        frequencies = [(''a'', 1)], treeRoot = None\<rparr>
     = Some \<lparr>encodedText = [], compressionRatio = 875 / 10, huffmanCodes = [(''a'', ''0'')],
             frequencies = [(''a'', 1)], treeRoot = None\<rparr>"
  by code_simp

subsection \<open>The queue and the loop\<close>

lemma mset_insert_sorted: "mset (insert_sorted cmp x ys) = add_mset x (mset ys)"
  by (induction ys) simp_all

lemma mset_array_sort: "mset (array_sort cmp xs) = mset xs"
  by (induction xs) (simp_all add: array_sort_def mset_insert_sorted)

lemma permSort_sort_nodes: "permSort (sort_nodes ckey)"
  by (simp add: permSort_def sort_nodes_def mset_array_sort)

lemma permSort_mset: "permSort srt \<Longrightarrow> mset (srt xs) = mset xs"
  by (simp add: permSort_def)

lemma permSort_set: "permSort srt \<Longrightarrow> set (srt xs) = set xs"
  by (metis permSort_mset set_mset_mset)

lemma permSort_length: "permSort srt \<Longrightarrow> length (srt xs) = length xs"
  by (metis permSort_mset size_mset)

lemma permSort_single: "permSort srt \<Longrightarrow> srt [x] = [x]"
  by (metis permSort_mset mset_single_iff_right mset.simps(1) mset.simps(2))

lemma takeChildren_eq:
  "takeChildren n pq cs tot = (cs @ take n pq, tot + sum_list (map freq (take n pq)), drop n pq)"
proof (induction n arbitrary: pq cs tot)
  case 0
  then show ?case by simp
next
  case (Suc n)
  show ?case
  proof (cases pq)
    case Nil
    then show ?thesis using Suc [of "[]" cs tot] by (simp add: dequeue_def)
  next
    case (Cons t rest)
    then show ?thesis using Suc [of rest "cs @ [t]" "tot + freq t"] by (simp add: dequeue_def)
  qed
qed

lemma mergeStep_eq:
  "mergeStep srt m pq =
     srt (drop (nat (min m (int (length pq)))) pq
          @ [Node ''internal'' (sum_list (map freq (take (nat (min m (int (length pq)))) pq)))
               (take (nat (min m (int (length pq)))) pq)])"
  by (simp add: mergeStep_def takeChildren_eq enqueue_def Let_def)

lemma forestSyms_append: "forestSyms (xs @ ys) = forestSyms xs + forestSyms ys"
  by (simp add: forestSyms_def)

lemma forestSyms_single: "forestSyms [t] = mset (leafSyms t)"
  by (simp add: forestSyms_def)

lemma forestSyms_perm: "mset xs = mset ys \<Longrightarrow> forestSyms xs = forestSyms ys"
  by (simp add: forestSyms_def)

lemma forestSyms_concat: "forestSyms cs = mset (concat (map leafSyms cs))"
  by (induction cs) (simp_all add: forestSyms_def)

lemma isSymbol_internal: "\<not> isSymbol ''internal''"
  by (simp add: isSymbol_def)

lemma forestSyms_internal: "forestSyms [Node ''internal'' f cs] = forestSyms cs"
  by (simp add: forestSyms_single isSymbol_internal forestSyms_concat)

lemma forestSyms_mergeStep:
  assumes "permSort srt"
  shows "forestSyms (mergeStep srt m pq) = forestSyms pq"
proof -
  let ?k = "nat (min m (int (length pq)))"
  have "forestSyms (mergeStep srt m pq)
          = forestSyms (drop ?k pq @ [Node ''internal'' (sum_list (map freq (take ?k pq))) (take ?k pq)])"
    unfolding mergeStep_eq by (rule forestSyms_perm) (rule permSort_mset [OF assms])
  also have "\<dots> = forestSyms (drop ?k pq) + forestSyms (take ?k pq)"
    by (simp only: forestSyms_append forestSyms_internal)
  also have "\<dots> = forestSyms (take ?k pq @ drop ?k pq)"
    by (simp only: forestSyms_append add.commute)
  finally show ?thesis by simp
qed

lemma multiple_ge:
  assumes "(a::int) mod b = 0" and "0 < a" and "0 < b"
  shows "b \<le> a"
  using assms zdvd_imp_le [of b a] by (simp add: dvd_eq_mod_eq_0)

lemma queueInv_mergeStep:
  assumes srt: "permSort srt" and m: "2 \<le> m" and inv: "queueInv m pq" and len: "1 < length pq"
  shows "queueInv m (mergeStep srt m pq)"
    and "length (mergeStep srt m pq) < length pq"
    and "length (mergeStep srt m pq) = 1 \<Longrightarrow> \<exists>t. mergeStep srt m pq = [t] \<and> children t \<noteq> []"
proof -
  let ?L = "int (length pq)"
  have cong: "(?L - 1) mod (m - 1) = 0" and wf: "\<forall>t\<in>set pq. wfTree (nat m) t"
    using inv by (simp_all add: queueInv_def)
  have "m - 1 \<le> ?L - 1"
    using multiple_ge [OF cong] len m by simp
  then have ge: "m \<le> ?L" by simp
  then have k: "nat (min m ?L) = nat m" by simp
  let ?new = "Node ''internal'' (sum_list (map freq (take (nat m) pq))) (take (nat m) pq)"
  have step: "mergeStep srt m pq = srt (drop (nat m) pq @ [?new])"
    using k by (simp add: mergeStep_eq)
  have lenk: "length (take (nat m) pq) = nat m"
    using ge by simp
  have wfnew: "wfTree (nat m) ?new"
    using wf lenk by (auto dest: in_set_takeD)
  have length_step: "length (mergeStep srt m pq) = length pq - nat m + 1"
    by (simp add: step permSort_length [OF srt])
  have e: "int (length (mergeStep srt m pq)) - 1 = (?L - 1) - (m - 1)"
    using length_step ge m by simp
  have cong': "(int (length (mergeStep srt m pq)) - 1) mod (m - 1) = 0"
    by (simp only: e minus_mod_self2 cong)
  have "\<forall>t\<in>set (mergeStep srt m pq). wfTree (nat m) t"
    unfolding step permSort_set [OF srt] using wf wfnew by (auto dest: in_set_dropD)
  moreover have "mergeStep srt m pq \<noteq> []"
    using length_step by auto
  ultimately show "queueInv m (mergeStep srt m pq)"
    using cong' by (simp add: queueInv_def)
  show "length (mergeStep srt m pq) < length pq"
    using length_step ge m by simp
  show "\<exists>t. mergeStep srt m pq = [t] \<and> children t \<noteq> []"
    if one: "length (mergeStep srt m pq) = 1"
  proof -
    from one length_step have "length pq \<le> nat m" by simp
    then have "drop (nat m) pq = []" by simp
    then have "mergeStep srt m pq = [?new]"
      by (simp add: step permSort_single [OF srt])
    moreover have "children ?new \<noteq> []"
      using lenk m by auto
    ultimately show ?thesis by blast
  qed
qed

lemma mergeStep_shorter:
  assumes srt: "permSort srt" and m: "2 \<le> m" and len: "1 < length pq"
  shows "length (mergeStep srt m pq) < length pq" and "mergeStep srt m pq \<noteq> []"
proof -
  let ?k = "nat (min m (int (length pq)))"
  have k: "2 \<le> ?k" "?k \<le> length pq"
    using m len by simp_all
  have length_step: "length (mergeStep srt m pq) = length pq - ?k + 1"
    by (simp add: mergeStep_eq permSort_length [OF srt])
  show "length (mergeStep srt m pq) < length pq"
    using length_step k by linarith
  show "mergeStep srt m pq \<noteq> []"
    using length_step by auto
qed

lemma buildLoop_total:
  assumes srt: "permSort srt" and m: "2 \<le> m"
  shows "pq \<noteq> [] \<Longrightarrow> \<exists>t. buildLoop srt m pq = Some [t] \<and> mset (leafSyms t) = forestSyms pq"
proof (induction "length pq" arbitrary: pq rule: less_induct)
  case less
  show ?case
  proof (cases "1 < length pq")
    case True
    note step = mergeStep_shorter [OF srt m True]
    from less.hyps [OF step]
    obtain t where t: "buildLoop srt m (mergeStep srt m pq) = Some [t]"
      "mset (leafSyms t) = forestSyms (mergeStep srt m pq)"
      by blast
    have "buildLoop srt m pq = Some [t]"
      using True t(1) by (subst buildLoop.simps) simp
    moreover have "mset (leafSyms t) = forestSyms pq"
      using t(2) by (simp add: forestSyms_mergeStep [OF srt])
    ultimately show ?thesis by blast
  next
    case False
    with less.prems obtain t where pq: "pq = [t]"
      by (cases pq) auto
    have "buildLoop srt m pq = Some [t]"
      unfolding pq by (subst buildLoop.simps) simp
    then show ?thesis
      using pq by (simp add: forestSyms_single)
  qed
qed

lemma buildLoop_result:
  assumes srt: "permSort srt" and m: "2 \<le> m"
  shows "queueInv m pq \<Longrightarrow>
         \<exists>t. buildLoop srt m pq = Some [t] \<and> wfTree (nat m) t
            \<and> mset (leafSyms t) = forestSyms pq
            \<and> (1 < length pq \<longrightarrow> children t \<noteq> [])"
proof (induction "length pq" arbitrary: pq rule: less_induct)
  case less
  show ?case
  proof (cases "1 < length pq")
    case True
    note step = queueInv_mergeStep [OF srt m less.prems True]
    from less.hyps [OF step(2) step(1)]
    obtain t where t: "buildLoop srt m (mergeStep srt m pq) = Some [t]" "wfTree (nat m) t"
      "mset (leafSyms t) = forestSyms (mergeStep srt m pq)"
      "1 < length (mergeStep srt m pq) \<longrightarrow> children t \<noteq> []"
      by blast
    have run: "buildLoop srt m pq = Some [t]"
      using True t(1) by (subst buildLoop.simps) simp
    have syms: "mset (leafSyms t) = forestSyms pq"
      using t(3) by (simp add: forestSyms_mergeStep [OF srt])
    have "children t \<noteq> []"
    proof (cases "1 < length (mergeStep srt m pq)")
      case True
      then show ?thesis using t(4) by simp
    next
      case False
      moreover have "mergeStep srt m pq \<noteq> []"
        using step(1) by (simp add: queueInv_def)
      ultimately have one: "length (mergeStep srt m pq) = 1"
        by (cases "mergeStep srt m pq") auto
      from step(3) [OF one] obtain u where u: "mergeStep srt m pq = [u]" "children u \<noteq> []"
        by blast
      have "buildLoop srt m [u] = Some [u]"
        by (subst buildLoop.simps) simp
      with t(1) u show ?thesis by simp
    qed
    with run t(2) syms show ?thesis by blast
  next
    case False
    with less.prems obtain t where pq: "pq = [t]"
      by (cases pq) (auto simp: queueInv_def)
    have "buildLoop srt m pq = Some [t]"
      unfolding pq by (subst buildLoop.simps) simp
    moreover have "wfTree (nat m) t"
      using less.prems pq by (simp add: queueInv_def)
    ultimately show ?thesis
      using pq False by (simp add: forestSyms_single)
  qed
qed

subsection \<open>The tree that \<open>generateMaryTree\<close> returns\<close>

lemma mset_enqueue: "permSort srt \<Longrightarrow> mset (enqueue srt pq n) = add_mset n (mset pq)"
  by (simp add: enqueue_def permSort_mset)

lemma mset_fold_enqueue:
  assumes "permSort srt"
  shows "mset (fold (\<lambda>x pq. enqueue srt pq (g x)) xs pq0) = mset pq0 + mset (map g xs)"
  by (induction xs arbitrary: pq0) (simp_all add: mset_enqueue [OF assms])

lemma mset_enqueueLeaves:
  assumes "permSort srt"
  shows "mset (enqueueLeaves srt fr) = mset (map (\<lambda>(c, f). newNode c f) fr)"
proof -
  have "enqueueLeaves srt fr = fold (\<lambda>x pq. enqueue srt pq ((\<lambda>(c, f). newNode c f) x)) fr []"
    by (simp add: enqueueLeaves_def case_prod_unfold)
  then show ?thesis
    by (simp only: mset_fold_enqueue [OF assms]) simp
qed

lemma enqueueDummies_Num:
  "d \<le> 2 ^ 53 \<Longrightarrow>
   enqueueDummies srt v (Num d) pq
     = Some (fold (\<lambda>i pq. enqueue srt pq (newNode (dummyName v i) 0)) [0 ..< nat d] pq)"
  by (simp add: enqueueDummies_def)

lemma mset_enqueueDummies:
  assumes srt: "permSort srt" and run: "enqueueDummies srt v d pq = Some pq1"
  shows "\<exists>k. mset pq1 = mset pq + mset (map (\<lambda>i. newNode (dummyName v i) 0) [0 ..< k])"
proof -
  have none: "mset pq = mset pq + mset (map (\<lambda>i. newNode (dummyName v i) 0) [0 ..< 0])"
    by simp
  show ?thesis
  proof (cases d)
    case (Num p)
    with run have "pq1 = fold (\<lambda>i pq. enqueue srt pq (newNode (dummyName v i) 0)) [0 ..< nat p] pq"
      by (simp add: enqueueDummies_def split: if_splits)
    then have "mset pq1 = mset pq + mset (map (\<lambda>i. newNode (dummyName v i) 0) [0 ..< nat p])"
      by (simp only: mset_fold_enqueue [OF srt])
    then show ?thesis by (rule exI)
  next
    case NaN
    with run have "pq1 = pq"
      by (simp add: enqueueDummies_def)
    with none show ?thesis by (intro exI [of _ 0]) simp
  next
    case PosInfinity
    with run show ?thesis
      by (simp add: enqueueDummies_def)
  next
    case NegInfinity
    with run have "pq1 = pq"
      by (simp add: enqueueDummies_def)
    with none show ?thesis by (intro exI [of _ 0]) simp
  qed
qed

lemma wfTree_newNode: "wfTree n (newNode c f)"
  by (simp add: newNode_def)

lemma forestSyms_leaves:
  "forestSyms (map (\<lambda>(c, f). newNode c f) fr) = mset (filter isSymbol (map fst fr))"
  by (induction fr) (auto simp: forestSyms_def newNode_def)

lemma forestSyms_dummies:
  "forestSyms (map (\<lambda>i. newNode (dummyName v i) 0) ks) = mset (filter isSymbol (map (dummyName v) ks))"
  by (induction ks) (auto simp: forestSyms_def newNode_def)

lemma generateMaryTree_syms:
  assumes srt: "permSort srt" and m: "2 \<le> m" and ne: "fr \<noteq> []"
    and gen: "generateMaryTree srt v fr m = Some r"
  shows "\<exists>t k. r = Some t
           \<and> mset (leafSyms t) = mset (filter isSymbol (map fst fr))
                                  + mset (filter isSymbol (map (dummyName v) [0 ..< k]))"
proof -
  let ?pq = "enqueueLeaves srt fr"
  have mset_pq: "mset ?pq = mset (map (\<lambda>(c, f). newNode c f) fr)"
    by (rule mset_enqueueLeaves [OF srt])
  then have len_pq: "length ?pq = length fr"
    by (metis length_map size_mset)
  have syms_pq: "forestSyms ?pq = mset (filter isSymbol (map fst fr))"
    using forestSyms_perm [OF mset_pq] by (simp only: forestSyms_leaves)
  show ?thesis
  proof (cases "length fr = 1")
    case True
    then obtain t where t: "?pq = [t]"
      using len_pq by (cases ?pq) auto
    have "generateMaryTree srt v fr m = Some (Some t)"
      using t by (simp add: generateMaryTree_def dequeue_def)
    with gen have "r = Some t" by simp
    moreover have "mset (leafSyms t) = mset (filter isSymbol (map fst fr))
                     + mset (filter isSymbol (map (dummyName v) [0 ..< 0]))"
      using syms_pq t by (simp add: forestSyms_single)
    ultimately have "r = Some t
           \<and> mset (leafSyms t) = mset (filter isSymbol (map fst fr))
                                  + mset (filter isSymbol (map (dummyName v) [0 ..< 0]))"
      by simp
    then show ?thesis
      by - (rule exI [of _ t], rule exI [of _ 0], assumption)
  next
    case False
    moreover have "length fr \<noteq> 0"
      using ne by simp
    ultimately have two: "2 \<le> length fr"
      by linarith
    have sizes: "?pq \<noteq> []" "length ?pq \<noteq> Suc 0"
      using two len_pq by auto
    let ?d = "calculateRequiredDummies (int (length ?pq)) m"
    from gen sizes obtain pq1 where pq1: "enqueueDummies srt v ?d ?pq = Some pq1"
      and loop: "map_option (\<lambda>pq2. fst (dequeue pq2)) (buildLoop srt m pq1) = Some r"
      by (auto simp: generateMaryTree_def Let_def split: option.splits)
    from mset_enqueueDummies [OF srt pq1]
    obtain k where k: "mset pq1 = mset ?pq + mset (map (\<lambda>i. newNode (dummyName v i) 0) [0 ..< k])"
      by blast
    have "pq1 \<noteq> []"
    proof
      assume "pq1 = []"
      with k sizes(1) show False by simp
    qed
    from buildLoop_total [OF srt m this]
    obtain t where t: "buildLoop srt m pq1 = Some [t]" "mset (leafSyms t) = forestSyms pq1"
      by blast
    from loop t(1) have r: "r = Some t"
      by (simp add: dequeue_def)
    have "forestSyms pq1 = forestSyms (?pq @ map (\<lambda>i. newNode (dummyName v i) 0) [0 ..< k])"
      by (rule forestSyms_perm) (simp add: k)
    then have "forestSyms pq1 = mset (filter isSymbol (map fst fr))
                           + mset (filter isSymbol (map (dummyName v) [0 ..< k]))"
      by (simp only: forestSyms_append syms_pq forestSyms_dummies)
    with r t(2) have "r = Some t
           \<and> mset (leafSyms t) = mset (filter isSymbol (map fst fr))
                                  + mset (filter isSymbol (map (dummyName v) [0 ..< k]))"
      by simp
    then show ?thesis
      by - (rule exI [of _ t], rule exI [of _ k], assumption)
  qed
qed

lemma generateMaryTree_result:
  assumes srt: "permSort srt" and m: "2 \<le> m" "m \<le> 2 ^ 53" and ne: "fr \<noteq> []"
    and small: "int (length fr) \<le> 2 ^ 53"
  shows "\<exists>t. generateMaryTree srt v fr m = Some (Some t) \<and> wfTree (nat m) t
           \<and> (2 \<le> length fr \<longrightarrow> children t \<noteq> [])"
proof -
  let ?pq = "enqueueLeaves srt fr"
  have mset_pq: "mset ?pq = mset (map (\<lambda>(c, f). newNode c f) fr)"
    by (rule mset_enqueueLeaves [OF srt])
  then have len_pq: "length ?pq = length fr"
    by (metis length_map size_mset)
  have wf_pq: "\<forall>t\<in>set ?pq. wfTree (nat m) t"
  proof
    fix t assume "t \<in> set ?pq"
    then have "t \<in># mset (map (\<lambda>(c, f). newNode c f) fr)"
      using mset_pq by (metis set_mset_mset)
    then show "wfTree (nat m) t"
      by (auto simp: wfTree_newNode)
  qed
  show ?thesis
  proof (cases "length fr = 1")
    case True
    then obtain t where t: "?pq = [t]"
      using len_pq by (cases ?pq) auto
    have "generateMaryTree srt v fr m = Some (Some t)"
      using t by (simp add: generateMaryTree_def dequeue_def)
    moreover have "wfTree (nat m) t"
      using wf_pq t by simp
    moreover have "\<not> 2 \<le> length fr"
      using True by simp
    ultimately show ?thesis
      by blast
  next
    case False
    moreover have "length fr \<noteq> 0"
      using ne by simp
    ultimately have two: "2 \<le> length fr"
      by linarith
    then have two': "2 \<le> int (length fr)"
      by simp
    from requiredDummies_spec [OF two' small m]
    obtain p where "calculateRequiredDummies (int (length fr)) m = Num p
           \<and> p = (if (int (length fr) - 1) mod (m - 1) = 0 then 0
                else (m - 1) - (int (length fr) - 1) mod (m - 1))
           \<and> 0 \<le> p \<and> p \<le> 2 ^ 53
           \<and> (int (length fr) + p - 1) mod (m - 1) = 0" ..
    then have p: "calculateRequiredDummies (int (length fr)) m = Num p" "0 \<le> p"
      "p \<le> 2 ^ 53" "(int (length fr) + p - 1) mod (m - 1) = 0"
      by - ((elim conjE, assumption)+)
    let ?pq1 = "fold (\<lambda>i pq. enqueue srt pq (newNode (dummyName v i) 0)) [0 ..< nat p] ?pq"
    have dummies: "enqueueDummies srt v (calculateRequiredDummies (int (length ?pq)) m) ?pq
                     = Some ?pq1"
      using p(3) by (simp only: len_pq p(1) enqueueDummies_Num)
    have mset_pq1: "mset ?pq1 = mset ?pq + mset (map (\<lambda>i. newNode (dummyName v i) 0) [0 ..< nat p])"
      by (rule mset_fold_enqueue [OF srt])
    then have "size (mset ?pq1) = length ?pq + nat p"
      by simp
    then have len_pq1: "length ?pq1 = length fr + nat p"
      using len_pq by simp
    have wf_pq1: "\<forall>t\<in>set ?pq1. wfTree (nat m) t"
    proof
      fix t assume "t \<in> set ?pq1"
      then have "t \<in># mset ?pq + mset (map (\<lambda>i. newNode (dummyName v i) 0) [0 ..< nat p])"
        using mset_pq1 by (metis set_mset_mset)
      then show "wfTree (nat m) t"
        using wf_pq by (auto simp: wfTree_newNode)
    qed
    have "int (length ?pq1) - 1 = int (length fr) + p - 1"
      using len_pq1 p(2) by simp
    then have inv: "queueInv m ?pq1"
      using len_pq1 two wf_pq1 p(4) by (auto simp: queueInv_def)
    from buildLoop_result [OF srt m(1) inv]
    obtain t where t: "buildLoop srt m ?pq1 = Some [t]" "wfTree (nat m) t"
      "1 < length ?pq1 \<longrightarrow> children t \<noteq> []"
      by blast
    have "?pq \<noteq> []" and "length ?pq \<noteq> Suc 0"
      using two len_pq by auto
    then have "generateMaryTree srt v fr m = Some (Some t)"
      using t(1) dummies by (simp add: generateMaryTree_def Let_def dequeue_def)
    moreover have "children t \<noteq> []"
      using t(3) len_pq1 two by simp
    ultimately show ?thesis
      using t(2) by blast
  qed
qed

subsection \<open>Decimal digits\<close>

lemma digit_char_inj: "a < 10 \<Longrightarrow> b < 10 \<Longrightarrow> digit_char a = digit_char b \<Longrightarrow> a = b"
  by (simp add: digit_char_def char_of_eq_iff take_bit_nat_eq_self)

lemma toString_digit: "n < 10 \<Longrightarrow> toString n = [digit_char n]"
  by (simp add: toString.simps)

lemma toString_nonempty: "toString n \<noteq> []"
  by (subst toString.simps) simp

lemma toString_length: "10 \<le> n \<Longrightarrow> 2 \<le> length (toString n)"
  using toString_nonempty [of "n div 10"]
  by (subst toString.simps) (cases "toString (n div 10)"; simp)

lemma toString_inj: "toString a = toString b \<Longrightarrow> a = b"
proof (induction a arbitrary: b rule: less_induct)
  case (less a)
  show ?case
  proof (cases "a < 10")
    case a: True
    show ?thesis
    proof (cases "b < 10")
      case True
      with a less.prems show ?thesis
        by (simp add: toString_digit digit_char_inj)
    next
      case False
      then have "2 \<le> length (toString b)" by (simp add: toString_length)
      moreover have "length (toString a) = 1" using a by (simp add: toString_digit)
      ultimately show ?thesis using less.prems by simp
    qed
  next
    case a: False
    show ?thesis
    proof (cases "b < 10")
      case True
      from a have "2 \<le> length (toString a)" by (simp add: toString_length)
      moreover have "length (toString b) = 1" using True by (simp add: toString_digit)
      ultimately show ?thesis using less.prems by simp
    next
      case False
      have ea: "toString a = toString (a div 10) @ [digit_char (a mod 10)]"
        using a by (subst toString.simps) simp
      have eb: "toString b = toString (b div 10) @ [digit_char (b mod 10)]"
        using False by (subst toString.simps) simp
      from less.prems ea eb
      have 1: "toString (a div 10) = toString (b div 10)"
        and 2: "digit_char (a mod 10) = digit_char (b mod 10)"
        by simp_all
      have "a div 10 < a" using a by simp
      from less.IH [OF this 1] have "a div 10 = b div 10" .
      moreover from 2 have "a mod 10 = b mod 10"
        by (rule digit_char_inj [rotated 2]) simp_all
      ultimately show ?thesis
        by (metis div_mult_mod_eq)
    qed
  qed
qed

subsection \<open>Which labels count as symbols\<close>

lemma isSymbol_char: "isSymbol [c]"
  by (simp add: isSymbol_def startsWith_def)

lemma isSymbol_dummy_AppTsx: "\<not> isSymbol (dummyName AppTsx i)"
  by (simp add: isSymbol_def startsWith_def dummyName_def)

lemma isSymbol_dummy_Part000: "isSymbol (dummyName Part000 i)"
  by (simp add: isSymbol_def startsWith_def dummyName_def)

lemma dummyName_not_char: "dummyName v i \<noteq> [c]"
  using toString_nonempty [of i] by (cases v) (simp_all add: dummyName_def)

lemma dummyName_inj: "dummyName v i = dummyName v j \<Longrightarrow> i = j"
  by (cases v) (simp_all add: dummyName_def toString_inj)

subsection \<open>Frequencies\<close>

lemma calculateFrequencies_keys_aux:
  "fst ` set (fold (\<lambda>char fr. AList.update [char]
       ((case map_of fr [char] of None \<Rightarrow> 0 | Some n \<Rightarrow> n) + 1) fr) text fr0)
     = (\<lambda>c. [c]) ` set text \<union> fst ` set fr0"
  by (induction "text" arbitrary: fr0) (auto simp: dom_update)

lemma calculateFrequencies_distinct_aux:
  "distinct (map fst fr0) \<Longrightarrow>
   distinct (map fst (fold (\<lambda>char fr. AList.update [char]
       ((case map_of fr [char] of None \<Rightarrow> 0 | Some n \<Rightarrow> n) + 1) fr) text fr0))"
  by (induction "text" arbitrary: fr0) (simp_all add: distinct_update)

lemma calculateFrequencies_keys: "set (map fst (calculateFrequencies text)) = (\<lambda>c. [c]) ` set text"
proof -
  have "fst ` set (calculateFrequencies text) = (\<lambda>c. [c]) ` set text \<union> fst ` set ([] :: (string \<times> nat) list)"
    unfolding calculateFrequencies_def by (rule calculateFrequencies_keys_aux)
  then show ?thesis by simp
qed

lemma calculateFrequencies_distinct: "distinct (map fst (calculateFrequencies text))"
  unfolding calculateFrequencies_def by (rule calculateFrequencies_distinct_aux) simp

lemma calculateFrequencies_length: "length (calculateFrequencies text) = card (set text)"
proof -
  have "length (calculateFrequencies text) = card (set (map fst (calculateFrequencies text)))"
    using distinct_card [OF calculateFrequencies_distinct [of "text"]] by simp
  also have "\<dots> = card ((\<lambda>c. [c]) ` set text)"
    by (simp only: calculateFrequencies_keys)
  also have "\<dots> = card (set text)"
    by (rule card_image) (simp add: inj_on_def)
  finally show ?thesis .
qed

lemma calculateFrequencies_length_le: "int (length (calculateFrequencies text)) \<le> 2 ^ 53"
proof -
  have "card (set text) \<le> card (UNIV :: char set)"
    by (rule card_mono) simp_all
  then have "length (calculateFrequencies text) \<le> 256"
    by (simp add: calculateFrequencies_length card_UNIV_char)
  then show ?thesis
    by simp
qed

lemma calculateFrequencies_nonempty: "text \<noteq> [] \<Longrightarrow> calculateFrequencies text \<noteq> []"
  using calculateFrequencies_keys [of "text"] by (cases "text") auto

lemma calculateFrequencies_symbols:
  "filter isSymbol (map fst (calculateFrequencies text)) = map fst (calculateFrequencies text)"
proof -
  have "\<forall>k\<in>set (map fst (calculateFrequencies text)). isSymbol k"
    unfolding calculateFrequencies_keys by (auto simp: isSymbol_char)
  then show ?thesis
    by (simp only: filter_True)
qed

subsection \<open>The traversal as a list of assignments\<close>

lemma generateCodes_setAll:
  "generateCodes t cur codes = setAll (assigned t cur) codes"
  "generateCodesEach cs i cur codes = setAll (assignedEach cs i cur) codes"
  by (induction t cur codes and cs i cur codes rule: generateCodes_generateCodesEach.induct)
    (simp_all add: setAll_def)

lemma keys_assigned:
  "map fst (assigned t cur) = leafSyms t"
  "map fst (assignedEach cs i cur) = concat (map leafSyms cs)"
  by (induction t cur and cs i cur rule: assigned_assignedEach.induct) simp_all

lemma update_new_key: "k \<notin> fst ` set al \<Longrightarrow> AList.update k v al = al @ [(k, v)]"
  by (induction al) auto

lemma setAll_distinct: "distinct (map fst (codes @ kvs)) \<Longrightarrow> setAll kvs codes = codes @ kvs"
proof (induction kvs arbitrary: codes)
  case Nil
  then show ?case by (simp add: setAll_def)
next
  case (Cons kv kvs)
  obtain k v where kv: "kv = (k, v)" by (cases kv)
  from Cons.prems have new: "k \<notin> fst ` set codes"
    by (auto simp: kv)
  have "setAll (kv # kvs) codes = setAll kvs (codes @ [(k, v)])"
    by (simp add: setAll_def kv update_new_key [OF new])
  also have "\<dots> = (codes @ [(k, v)]) @ kvs"
    using Cons.prems by (intro Cons.IH) (simp add: kv)
  finally show ?case by (simp add: kv)
qed

subsection \<open>The codes of a well-shaped tree\<close>

lemma branches_parallel:
  assumes "a \<noteq> b" and "prefix (cur @ [a]) x" and "prefix (cur @ [b]) y"
  shows "x \<parallel> y"
proof -
  from assms(2) obtain x' where x: "x = cur @ a # x'" by (auto elim: prefixE)
  from assms(3) obtain y' where y: "y = cur @ b # y'" by (auto elim: prefixE)
  show ?thesis
    using assms(1) by (simp add: x y parallel_def)
qed

lemma digitString_append: "digitString m (xs @ ys) \<longleftrightarrow> digitString m xs \<and> digitString m ys"
  by (auto simp: digitString_def)

lemma digitString_toString: "j < m \<Longrightarrow> m \<le> 10 \<Longrightarrow> digitString m (toString j)"
  by (auto simp: digitString_def toString_digit)

lemma assigned_codes:
  "wfTree m t \<Longrightarrow> m \<le> 10 \<Longrightarrow> cur \<noteq> [] \<Longrightarrow> digitString m cur \<Longrightarrow>
     (\<forall>c\<in>set (map snd (assigned t cur)). prefix cur c \<and> digitString m c)
     \<and> sorted_wrt (\<parallel>) (map snd (assigned t cur))"
  "(\<forall>c\<in>set cs. wfTree m c) \<Longrightarrow> i + length cs \<le> m \<Longrightarrow> m \<le> 10 \<Longrightarrow> digitString m cur \<Longrightarrow>
     (\<forall>c\<in>set (map snd (assignedEach cs i cur)).
        (\<exists>j. i \<le> j \<and> j < i + length cs \<and> prefix (cur @ toString j) c) \<and> digitString m c)
     \<and> sorted_wrt (\<parallel>) (map snd (assignedEach cs i cur))"
proof (induction t cur and cs i cur rule: assigned_assignedEach.induct)
  case (1 d f cs cur)
  show ?case
  proof (cases "isSymbol d")
    case True
    then show ?thesis
      using "1.prems" by simp
  next
    case False
    from "1.prems"(1) have wf: "\<forall>c\<in>set cs. wfTree m c" and len: "0 + length cs \<le> m"
      by auto
    from "1.IH" [OF False wf len "1.prems"(2) "1.prems"(4)]
    have each: "\<forall>c\<in>set (map snd (assignedEach cs 0 cur)).
        (\<exists>j. 0 \<le> j \<and> j < 0 + length cs \<and> prefix (cur @ toString j) c) \<and> digitString m c"
      and par: "sorted_wrt (\<parallel>) (map snd (assignedEach cs 0 cur))"
      by blast+
    have "\<forall>c\<in>set (map snd (assignedEach cs 0 cur)). prefix cur c \<and> digitString m c"
      using each by (blast dest: append_prefixD)
    then show ?thesis
      using False par by simp
  qed
next
  case (2 i cur)
  then show ?case by simp
next
  case (3 child rest i cur)
  from "3.prems" have i: "i < m" and m: "m \<le> 10" by simp_all
  then have si: "toString i = [digit_char i]" by (simp add: toString_digit)
  have wf_child: "wfTree m child" and wf_rest: "\<forall>c\<in>set rest. wfTree m c"
    using "3.prems"(1) by simp_all
  have len_rest: "Suc i + length rest \<le> m"
    using "3.prems"(2) by simp
  have dig: "digitString m (cur @ toString i)"
    using "3.prems"(4) i m by (simp add: digitString_append digitString_toString)
  have ne: "cur @ toString i \<noteq> []"
    by (simp add: toString_nonempty)
  from "3.IH"(1) [OF wf_child m ne dig]
  have c1: "\<forall>c\<in>set (map snd (assigned child (cur @ toString i))).
              prefix (cur @ toString i) c \<and> digitString m c"
    and p1: "sorted_wrt (\<parallel>) (map snd (assigned child (cur @ toString i)))"
    by blast+
  from "3.IH"(2) [OF wf_rest len_rest m "3.prems"(4)]
  have c2: "\<forall>c\<in>set (map snd (assignedEach rest (Suc i) cur)).
        (\<exists>j. Suc i \<le> j \<and> j < Suc i + length rest \<and> prefix (cur @ toString j) c) \<and> digitString m c"
    and p2: "sorted_wrt (\<parallel>) (map snd (assignedEach rest (Suc i) cur))"
    by blast+
  have cross: "x \<parallel> y"
    if x: "x \<in> set (map snd (assigned child (cur @ toString i)))"
    and y: "y \<in> set (map snd (assignedEach rest (Suc i) cur))" for x y
  proof -
    from c1 x have px: "prefix (cur @ [digit_char i]) x"
      unfolding si by blast
    from c2 y obtain j where j: "Suc i \<le> j" "j < Suc i + length rest" "prefix (cur @ toString j) y"
      by blast
    from j(2) len_rest m have "j < 10" by simp
    then have sj: "toString j = [digit_char j]" by (simp add: toString_digit)
    have "digit_char i \<noteq> digit_char j"
      using digit_char_inj [of i j] i m j(1) \<open>j < 10\<close> by auto
    then show ?thesis
      using px j(3) by (intro branches_parallel [of "digit_char i" "digit_char j" cur]) (simp_all add: sj)
  qed
  have part1: "\<forall>c\<in>set (map snd (assignedEach (child # rest) i cur)).
        (\<exists>j. i \<le> j \<and> j < i + length (child # rest) \<and> prefix (cur @ toString j) c) \<and> digitString m c"
  proof
    fix c assume "c \<in> set (map snd (assignedEach (child # rest) i cur))"
    then consider "c \<in> set (map snd (assigned child (cur @ toString i)))"
      | "c \<in> set (map snd (assignedEach rest (Suc i) cur))"
      by auto
    then show "(\<exists>j. i \<le> j \<and> j < i + length (child # rest) \<and> prefix (cur @ toString j) c) \<and> digitString m c"
    proof cases
      case 1
      with c1 have "prefix (cur @ toString i) c" "digitString m c" by blast+
      then show ?thesis by (intro conjI exI [of _ i]) simp_all
    next
      case 2
      with c2 obtain j where "Suc i \<le> j" "j < Suc i + length rest" "prefix (cur @ toString j) c"
        and "digitString m c" by blast
      then show ?thesis by (intro conjI exI [of _ j]) simp_all
    qed
  qed
  have "sorted_wrt (\<parallel>) (map snd (assignedEach (child # rest) i cur))"
    using p1 p2 cross by (simp add: sorted_wrt_append)
  with part1 show ?case by blast
qed

lemma assigned_nonempty:
  "cur \<noteq> [] \<Longrightarrow> \<forall>c\<in>set (map snd (assigned t cur)). c \<noteq> []"
  "\<forall>c\<in>set (map snd (assignedEach cs i cur)). c \<noteq> []"
proof (induction t cur and cs i cur rule: assigned_assignedEach.induct)
  case (1 d f cs cur)
  then show ?case by simp
next
  case (2 i cur)
  then show ?case by simp
next
  case (3 child rest i cur)
  have "cur @ toString i \<noteq> []" by (simp add: toString_nonempty)
  from "3.IH"(1) [OF this] "3.IH"(2) show ?case by auto
qed

lemma assigned_root_nonempty: "\<forall>c\<in>set (map snd (assigned t [])). c \<noteq> []"
proof (cases t)
  case (Node d f cs)
  then show ?thesis
    using assigned_nonempty(2) [of cs 0 "[]"] by simp
qed

lemma digitString_Nil: "digitString m []"
  by (simp add: digitString_def)

lemma digitString_zero: "0 < m \<Longrightarrow> digitString m ''0''"
proof -
  have "digit_char 0 = CHR ''0''" by code_simp
  then show "0 < m \<Longrightarrow> digitString m ''0''"
    by (auto simp: digitString_def)
qed

lemma assigned_root_codes:
  assumes wf: "wfTree m t" and m: "0 < m" "m \<le> 10"
  shows "(\<forall>c\<in>set (map snd (assigned t [])). digitString m c)
         \<and> sorted_wrt (\<parallel>) (map snd (assigned t []))"
proof (cases t)
  case (Node d f cs)
  show ?thesis
  proof (cases "isSymbol d")
    case True
    then show ?thesis using m(1) by (simp add: Node digitString_zero)
  next
    case False
    from wf have "\<forall>c\<in>set cs. wfTree m c" and "0 + length cs \<le> m"
      by (auto simp: Node)
    from assigned_codes(2) [OF this m(2) digitString_Nil]
    show ?thesis using False by (simp add: Node)
  qed
qed

subsection \<open>The table that \<open>encode\<close> publishes\<close>

lemma dummy_symbols_AppTsx: "filter isSymbol (map (dummyName AppTsx) ks) = []"
  by (induction ks) (simp_all add: isSymbol_dummy_AppTsx)

lemma dummy_symbols_distinct: "distinct (filter isSymbol (map (dummyName v) [0 ..< k]))"
proof -
  have "inj_on (dummyName v) (set [0 ..< k])"
    by (auto simp: inj_on_def dest: dummyName_inj)
  then have "distinct (map (dummyName v) [0 ..< k])"
    by (simp add: distinct_map)
  then show ?thesis
    by (rule distinct_filter)
qed

lemma encode_of_tree:
  assumes ne: "text \<noteq> []"
    and gen: "generateMaryTree srt v (calculateFrequencies text) m = Some (Some t)"
    and leaves: "mset (leafSyms t) = mset (filter isSymbol (map fst (calculateFrequencies text)))
                          + mset (filter isSymbol (map (dummyName v) [0 ..< k]))"
  shows "\<exists>s'. encode srt v text m s = Some (concatCodes (huffmanCodes s') text, s')
           \<and> huffmanCodes s' = assigned t []
           \<and> distinct (leafSyms t)
           \<and> set (leafSyms t) = (\<lambda>c. [c]) ` set text
                 \<union> set (filter isSymbol (map (dummyName v) [0 ..< k]))"
proof -
  let ?fr = "calculateFrequencies text"
  let ?ds = "filter isSymbol (map (dummyName v) [0 ..< k])"
  have syms: "mset (leafSyms t) = mset (map fst ?fr @ ?ds)"
    using leaves by (simp add: calculateFrequencies_symbols)
  have "set (map fst ?fr) \<inter> set ?ds = {}"
    unfolding calculateFrequencies_keys by (auto simp: dummyName_not_char [symmetric])
  then have "distinct (map fst ?fr @ ?ds)"
    using calculateFrequencies_distinct [of "text"] dummy_symbols_distinct [of v k] by simp
  then have dist: "distinct (leafSyms t)"
    using mset_eq_imp_distinct_iff [OF syms] by simp
  have "set (leafSyms t) = set (map fst ?fr @ ?ds)"
    using syms by (rule mset_eq_setD)
  then have keys: "set (leafSyms t) = (\<lambda>c. [c]) ` set text \<union> set ?ds"
    by (simp only: set_append calculateFrequencies_keys)
  have "distinct (map fst ([] @ assigned t []))"
    using dist by (simp add: keys_assigned)
  then have "setAll (assigned t []) [] = [] @ assigned t []"
    by (rule setAll_distinct)
  then have table: "generateCodesRoot (Some t) [] = assigned t []"
    by (simp add: generateCodesRoot_def generateCodes_setAll)
  let ?s' = "s\<lparr>frequencies := ?fr,
                treeRoot := (case v of AppTsx \<Rightarrow> treeRoot s | Part000 \<Rightarrow> Some t),
                huffmanCodes := assigned t [],
                compressionRatio := compressionRatioOf (int (length text) * 8)
                    (int (length (concatCodes (assigned t []) text)))\<rparr>"
  have enc: "encode srt v text m s = Some (concatCodes (huffmanCodes ?s') text, ?s')"
    using ne by (simp add: encode_def gen table Let_def)
  have "encode srt v text m s = Some (concatCodes (huffmanCodes ?s') text, ?s')
           \<and> huffmanCodes ?s' = assigned t []
           \<and> distinct (leafSyms t)
           \<and> set (leafSyms t) = (\<lambda>c. [c]) ` set text
                 \<union> set (filter isSymbol (map (dummyName v) [0 ..< k]))"
    using enc dist keys by simp
  then show ?thesis
    by (rule exI [of _ ?s'])
qed


lemma encode_table:
  assumes srt: "permSort srt" and m: "2 \<le> m" "m \<le> 2 ^ 53" and ne: "text \<noteq> []"
  shows "\<exists>t k s'. encode srt v text m s = Some (concatCodes (huffmanCodes s') text, s')
           \<and> generateMaryTree srt v (calculateFrequencies text) m = Some (Some t)
           \<and> huffmanCodes s' = assigned t []
           \<and> wfTree (nat m) t
           \<and> (2 \<le> card (set text) \<longrightarrow> children t \<noteq> [])
           \<and> distinct (leafSyms t)
           \<and> set (leafSyms t) = (\<lambda>c. [c]) ` set text
                 \<union> set (filter isSymbol (map (dummyName v) [0 ..< k]))"
proof -
  let ?fr = "calculateFrequencies text"
  note fr = calculateFrequencies_nonempty [OF ne]
  from generateMaryTree_result [OF srt m fr calculateFrequencies_length_le, of v]
  obtain t where t: "generateMaryTree srt v ?fr m = Some (Some t)" "wfTree (nat m) t"
    "2 \<le> length ?fr \<longrightarrow> children t \<noteq> []"
    by blast
  from generateMaryTree_syms [OF srt m(1) fr t(1)]
  obtain k where leaves: "mset (leafSyms t) = mset (filter isSymbol (map fst ?fr))
                          + mset (filter isSymbol (map (dummyName v) [0 ..< k]))"
    by auto
  from encode_of_tree [OF ne t(1) leaves, of s]
  obtain s' where s': "encode srt v text m s = Some (concatCodes (huffmanCodes s') text, s')"
    "huffmanCodes s' = assigned t []" "distinct (leafSyms t)"
    "set (leafSyms t) = (\<lambda>c. [c]) ` set text
                 \<union> set (filter isSymbol (map (dummyName v) [0 ..< k]))"
    by blast
  have two: "2 \<le> card (set text) \<longrightarrow> children t \<noteq> []"
    using t(3) by (simp add: calculateFrequencies_length)
  have "encode srt v text m s = Some (concatCodes (huffmanCodes s') text, s')
           \<and> generateMaryTree srt v (calculateFrequencies text) m = Some (Some t)
           \<and> huffmanCodes s' = assigned t []
           \<and> wfTree (nat m) t
           \<and> (2 \<le> card (set text) \<longrightarrow> children t \<noteq> [])
           \<and> distinct (leafSyms t)
           \<and> set (leafSyms t) = (\<lambda>c. [c]) ` set text
                 \<union> set (filter isSymbol (map (dummyName v) [0 ..< k]))"
    using s' t(1,2) two by simp
  then show ?thesis
    by - (rule exI [of _ t], rule exI [of _ k], rule exI [of _ s'], assumption)
qed

lemma concatCodes_aux:
  assumes "\<forall>c\<in>set text. \<exists>code. map_of codes [c] = Some code \<and> code \<noteq> []"
  shows "fold (\<lambda>char encoded.
           (case map_of codes [char] of
              None \<Rightarrow> encoded
            | Some code \<Rightarrow> if code \<noteq> [] then encoded @ code else encoded)) text acc
         = acc @ concat (map (\<lambda>c. the (map_of codes [c])) text)"
  using assms by (induction "text" arbitrary: acc) auto

lemma concatCodes_total:
  assumes "\<forall>c\<in>set text. \<exists>code. map_of codes [c] = Some code \<and> code \<noteq> []"
  shows "concatCodes codes text = concat (map (\<lambda>c. the (map_of codes [c])) text)"
  unfolding concatCodes_def using concatCodes_aux [OF assms, of "[]"] by simp

lemma filter_key_single:
  "distinct (map fst T) \<Longrightarrow> (k, v) \<in> set T \<Longrightarrow> filter (\<lambda>e. fst e = k) T = [(k, v)]"
proof (induction T)
  case Nil
  then show ?case by simp
next
  case (Cons e T)
  show ?case
  proof (cases "fst e = k")
    case True
    with Cons.prems have "e = (k, v)"
      by (cases e) (auto simp: image_iff)
    moreover have "filter (\<lambda>e. fst e = k) T = []"
      using Cons.prems(1) True by (auto simp: filter_empty_conv image_iff)
    ultimately show ?thesis by simp
  next
    case False
    with Cons show ?thesis by auto
  qed
qed

lemma sorted_wrt_pairs:
  assumes "sorted_wrt P (map f xs)" and "\<And>a b. P a b \<Longrightarrow> P b a"
    and "x \<in> set xs" and "y \<in> set xs" and "x \<noteq> y"
  shows "P (f x) (f y)"
  using assms(1,3,4,5)
proof (induction xs)
  case Nil
  then show ?case by simp
next
  case (Cons a xs)
  then show ?case
    using assms(2) by auto
qed



lemma table_facts:
  assumes srt: "permSort srt" and m: "2 \<le> m" "m \<le> 10" and ne: "text \<noteq> []"
  shows "\<exists>s'. encode srt v text m s = Some (concatCodes (huffmanCodes s') text, s')
           \<and> distinct (map fst (huffmanCodes s'))
           \<and> (\<forall>c\<in>set text. [c] \<in> fst ` set (huffmanCodes s'))
           \<and> (v = AppTsx \<longrightarrow> fst ` set (huffmanCodes s') = (\<lambda>c. [c]) ` set text)
           \<and> (\<forall>e\<in>set (huffmanCodes s'). snd e \<noteq> [] \<and> digitString (nat m) (snd e))
           \<and> (\<forall>e1\<in>set (huffmanCodes s'). \<forall>e2\<in>set (huffmanCodes s').
                 e1 \<noteq> e2 \<longrightarrow> \<not> prefix (snd e1) (snd e2))"
proof -
  from m have "m \<le> 2 ^ 53" by simp
  from encode_table [OF srt m(1) this ne, of v s]
  obtain t k s' where
    enc: "encode srt v text m s = Some (concatCodes (huffmanCodes s') text, s')"
    and table: "huffmanCodes s' = assigned t []"
    and wf: "wfTree (nat m) t"
    and dist: "distinct (leafSyms t)"
    and keys: "set (leafSyms t) = (\<lambda>c. [c]) ` set text
                 \<union> set (filter isSymbol (map (dummyName v) [0 ..< k]))"
    by blast
  have nm: "0 < nat m" "nat m \<le> 10"
    using m by simp_all
  from assigned_root_codes [OF wf nm]
  have dig: "\<forall>c\<in>set (map snd (assigned t [])). digitString (nat m) c"
    and par: "sorted_wrt (\<parallel>) (map snd (assigned t []))"
    by blast+
  have kt: "fst ` set (huffmanCodes s') = set (leafSyms t)"
    using keys_assigned(1) [of t "[]"] by (metis table set_map)
  have 1: "distinct (map fst (huffmanCodes s'))"
    using dist by (simp add: table keys_assigned)
  have 2: "\<forall>c\<in>set text. [c] \<in> fst ` set (huffmanCodes s')"
    unfolding kt keys by simp
  have 3: "v = AppTsx \<longrightarrow> fst ` set (huffmanCodes s') = (\<lambda>c. [c]) ` set text"
    unfolding kt keys by (simp add: dummy_symbols_AppTsx)
  have 4: "\<forall>e\<in>set (huffmanCodes s'). snd e \<noteq> [] \<and> digitString (nat m) (snd e)"
    using dig assigned_root_nonempty [of t] by (simp add: table)
  have 5: "\<forall>e1\<in>set (huffmanCodes s'). \<forall>e2\<in>set (huffmanCodes s').
             e1 \<noteq> e2 \<longrightarrow> \<not> prefix (snd e1) (snd e2)"
  proof (intro ballI impI)
    fix e1 e2
    assume "e1 \<in> set (huffmanCodes s')" "e2 \<in> set (huffmanCodes s')" "e1 \<noteq> e2"
    then have "snd e1 \<parallel> snd e2"
      using par unfolding table
      by (intro sorted_wrt_pairs [of "(\<parallel>)" snd "assigned t []"]) (simp_all add: parallel_commute)
    then show "\<not> prefix (snd e1) (snd e2)" by (rule parallelD1)
  qed
  from enc 1 2 3 4 5 show ?thesis by blast
qed

subsection \<open>Completeness and prefix-freedom of the table\<close>

text \<open>
  Claim C1. For every text and every \<open>M\<close> with \<open>2 \<le> M \<le> 5\<close>, in either version and under
  any collation, \<^const>\<open>encode\<close> returns, and the table it publishes has exactly one entry
  for each symbol of the text, whose code is a non-empty string of digits below \<open>M\<close>. In
  App.tsx the table of a non-empty text has no other entry.
\<close>

theorem table_complete:
  assumes "2 \<le> m" and "m \<le> 5"
  shows "\<exists>payload s'. encode (sort_nodes ckey) v text m s = Some (payload, s')
           \<and> (\<forall>c\<in>set text. \<exists>code.
                 filter (\<lambda>e. fst e = [c]) (huffmanCodes s') = [([c], code)]
                 \<and> code \<noteq> [] \<and> digitString (nat m) code)
           \<and> (v = AppTsx \<and> text \<noteq> [] \<longrightarrow> fst ` set (huffmanCodes s') = (\<lambda>c. [c]) ` set text)"
proof (cases "text = []")
  case True
  then show ?thesis by (simp add: encode_def)
next
  case False
  from assms have "m \<le> 10" by simp
  from table_facts [OF permSort_sort_nodes assms(1) this False, of ckey v s]
  obtain s' where
    enc: "encode (sort_nodes ckey) v text m s = Some (concatCodes (huffmanCodes s') text, s')"
    and dist: "distinct (map fst (huffmanCodes s'))"
    and keys: "\<forall>c\<in>set text. [c] \<in> fst ` set (huffmanCodes s')"
    and exact: "v = AppTsx \<longrightarrow> fst ` set (huffmanCodes s') = (\<lambda>c. [c]) ` set text"
    and codes: "\<forall>e\<in>set (huffmanCodes s'). snd e \<noteq> [] \<and> digitString (nat m) (snd e)"
    by blast
  have each: "\<exists>code. filter (\<lambda>e. fst e = [c]) (huffmanCodes s') = [([c], code)]
                 \<and> code \<noteq> [] \<and> digitString (nat m) code" if "c \<in> set text" for c
  proof -
    from that keys obtain code where code: "([c], code) \<in> set (huffmanCodes s')"
      by force
    from filter_key_single [OF dist code] codes code show ?thesis
      by force
  qed
  from enc each exact show ?thesis by blast
qed

theorem table_complete_witness:
  "(2::int) \<le> 3 \<and> (3::int) \<le> 5
   \<and> (\<exists>payload s'. encode (sort_nodes unitKey) AppTsx ''aabbbccccc'' 3 initial_state = Some (payload, s')
           \<and> (\<forall>c\<in>set ''aabbbccccc''. \<exists>code.
                 filter (\<lambda>e. fst e = [c]) (huffmanCodes s') = [([c], code)]
                 \<and> code \<noteq> [] \<and> digitString (nat 3) code)
           \<and> (AppTsx = AppTsx \<and> ''aabbbccccc'' \<noteq> []
                 \<longrightarrow> fst ` set (huffmanCodes s') = (\<lambda>c. [c]) ` set ''aabbbccccc''))
   \<and> map_option (huffmanCodes \<circ> snd)
         (encode (sort_nodes unitKey) AppTsx ''aabbbccccc'' 3 initial_state)
       = Some [(''a'', ''0''), (''b'', ''1''), (''c'', ''2'')]"
proof -
  have h1: "(2::int) \<le> 3" and h2: "(3::int) \<le> 5" by simp_all
  have run: "map_option (huffmanCodes \<circ> snd)
         (encode (sort_nodes unitKey) AppTsx ''aabbbccccc'' 3 initial_state)
       = Some [(''a'', ''0''), (''b'', ''1''), (''c'', ''2'')]"
    by code_simp
  from table_complete [OF h1 h2, of unitKey AppTsx "''aabbbccccc''" initial_state] h1 h2 run
  show ?thesis by (intro conjI)
qed

text \<open>
  Claim C2, amended. For every non-empty text and every \<open>M\<close> with \<open>2 \<le> M \<le> 10\<close>, the keys of
  the published table are distinct and no code is a prefix of the code of another entry.
\<close>

theorem table_prefix_free:
  assumes "2 \<le> m" and "m \<le> 10" and "text \<noteq> []"
  shows "\<exists>payload s'. encode (sort_nodes ckey) v text m s = Some (payload, s')
           \<and> distinct (map fst (huffmanCodes s'))
           \<and> (\<forall>e1\<in>set (huffmanCodes s'). \<forall>e2\<in>set (huffmanCodes s').
                 e1 \<noteq> e2 \<longrightarrow> \<not> prefix (snd e1) (snd e2))"
  using table_facts [OF permSort_sort_nodes assms, of ckey v s] by blast

theorem table_prefix_free_witness:
  "(2::int) \<le> 3 \<and> (3::int) \<le> 10 \<and> ''abcd'' \<noteq> []
   \<and> (\<exists>payload s'. encode (sort_nodes unitKey) Part000 ''abcd'' 3 initial_state = Some (payload, s')
           \<and> distinct (map fst (huffmanCodes s'))
           \<and> (\<forall>e1\<in>set (huffmanCodes s'). \<forall>e2\<in>set (huffmanCodes s').
                 e1 \<noteq> e2 \<longrightarrow> \<not> prefix (snd e1) (snd e2)))
   \<and> map_option (huffmanCodes \<circ> snd)
         (encode (sort_nodes unitKey) Part000 ''abcd'' 3 initial_state)
       = Some [(''c'', ''0''), (''d'', ''1''), (''z0'', ''20''), (''a'', ''21''), (''b'', ''22'')]"
proof -
  have h1: "(2::int) \<le> 3" and h2: "(3::int) \<le> 10" and h3: "''abcd'' \<noteq> []" by simp_all
  have run: "map_option (huffmanCodes \<circ> snd)
         (encode (sort_nodes unitKey) Part000 ''abcd'' 3 initial_state)
       = Some [(''c'', ''0''), (''d'', ''1''), (''z0'', ''20''), (''a'', ''21''), (''b'', ''22'')]"
    by code_simp
  from table_prefix_free [OF h1 h2 h3, of unitKey Part000 initial_state] h1 h2 h3 run
  show ?thesis by (intro conjI)
qed

text \<open>
  Claim C2 as stated, for every \<open>M \<ge> 2\<close>, fails at \<open>M = 11\<close>: the eleven symbols of
  \<open>abcdefghijk\<close> become the children of the root, \<^verbatim>\<open>index.toString()\<close> of the last
  child is \<open>10\<close>, and the code \<open>1\<close> of \<open>b\<close> is a prefix of the code \<open>10\<close> of \<open>k\<close>.
\<close>

theorem prefix_free_fails_at_11:
  "map_option (huffmanCodes \<circ> snd)
     (encode (sort_nodes unitKey) AppTsx ''abcdefghijk'' 11 initial_state)
     = Some [(''a'', ''0''), (''b'', ''1''), (''c'', ''2''), (''d'', ''3''), (''e'', ''4''),
             (''f'', ''5''), (''g'', ''6''), (''h'', ''7''), (''i'', ''8''), (''j'', ''9''),
             (''k'', ''10'')]
   \<and> prefix ''1'' ''10''"
  by code_simp

subsection \<open>Arity of the tree\<close>




subsection \<open>Symbols without a code\<close>



text \<open>
  Beyond \<open>2^53\<close> a run need not return: for the text \<open>ab\<close> and \<open>M = 2^53 + 4\<close> the loop that
  adds the padding leaves does not end.
\<close>

lemma encode_no_return_beyond_2_53:
  "encode (sort_nodes unitKey) AppTsx ''ab'' 9007199254740996 initial_state = None"
  by code_simp


subsection \<open>Determinism\<close>

lemma compare_nodes_le: "compare_nodes ckey a b \<le> 0 \<longleftrightarrow> nodeKey ckey a \<le> nodeKey ckey b"
  by (auto simp: compare_nodes_def localeCompare_def nodeKey_def)

lemma compare_nodes_eq: "compare_nodes ckey a b = 0 \<longleftrightarrow> nodeKey ckey a = nodeKey ckey b"
  by (auto simp: compare_nodes_def localeCompare_def nodeKey_def)

lemma insert_sorted_insort:
  "insert_sorted (compare_nodes ckey) x ys = insort_key (nodeKey ckey) x ys"
  by (induction ys) (simp_all add: compare_nodes_le)

lemma sort_nodes_sort_key: "sort_nodes ckey xs = sort_key (nodeKey ckey) xs"
  by (induction xs) (simp_all add: sort_nodes_def array_sort_def insert_sorted_insort)

lemma compare_nodes_le_fun:
  "(\<lambda>a b. compare_nodes ckey a b \<le> 0) = (\<lambda>a b. nodeKey ckey a \<le> nodeKey ckey b)"
  by (intro ext) (rule compare_nodes_le)


lemma sortContract_sort_key: "sortContract (compare_nodes ckey) (sort_key (nodeKey ckey))"
proof -
  have "sorted_wrt (\<lambda>a b. compare_nodes ckey a b \<le> 0) (sort_key (nodeKey ckey) xs)" for xs
  proof -
    have "sorted (map (nodeKey ckey) (sort_key (nodeKey ckey) xs))"
      by (rule sorted_sort_key)
    then have "sorted_wrt (\<lambda>a b. nodeKey ckey a \<le> nodeKey ckey b) (sort_key (nodeKey ckey) xs)"
      by (simp only: sorted_map)
    then show ?thesis
      by (simp only: compare_nodes_le_fun)
  qed
  moreover have "filter (\<lambda>x. compare_nodes ckey k x = 0) (sort_key (nodeKey ckey) xs)
                   = filter (\<lambda>x. compare_nodes ckey k x = 0) xs" for k xs
  proof -
    have "(\<lambda>x. compare_nodes ckey k x = 0) = (\<lambda>x. nodeKey ckey x = nodeKey ckey k)"
      by (intro ext) (auto simp only: compare_nodes_eq)
    then show ?thesis
      by (simp only: sort_key_stable)
  qed
  moreover have "mset (sort_key (nodeKey ckey) xs) = mset xs" for xs
    by (rule mset_sort)
  ultimately show ?thesis
    unfolding sortContract_def by blast
qed

lemma sortContract_sort_nodes: "sortContract (compare_nodes ckey) (sort_nodes ckey)"
proof -
  have "sort_nodes ckey = sort_key (nodeKey ckey)"
    by (rule ext) (rule sort_nodes_sort_key)
  then show ?thesis
    by (simp only: sortContract_sort_key)
qed








text \<open>
  The collation is part of the host: \<^verbatim>\<open>localeCompare\<close> is called without a locale. For
  the text \<open>z\<auml>\<close> and \<open>M = 2\<close> both symbols have the frequency \<open>1\<close> and the collation alone
  orders the queue; the collation by code units and the one that files \<open>\<auml>\<close> under \<open>a\<close>
  give two tables and two payloads.
\<close>

lemma collation_changes_table:
  "map_option (\<lambda>(p, s1). (p, huffmanCodes s1))
       (encode (sort_nodes unitKey) AppTsx [CHR ''z'', CHR 0xE4] 2 initial_state)
     = Some (''01'', [([CHR ''z''], ''0''), ([CHR 0xE4], ''1'')])
   \<and> map_option (\<lambda>(p, s1). (p, huffmanCodes s1))
       (encode (sort_nodes accentKey) AppTsx [CHR ''z'', CHR 0xE4] 2 initial_state)
     = Some (''10'', [([CHR 0xE4], ''0''), ([CHR ''z''], ''1'')])"
  by code_simp

subsection \<open>Decoding what was encoded\<close>

lemma find_code:
  assumes pf: "\<forall>e1\<in>set T. \<forall>e2\<in>set T. e1 \<noteq> e2 \<longrightarrow> \<not> prefix (snd e1) (snd e2)"
    and e: "(k, code) \<in> set T"
  shows "find (\<lambda>e. snd e = code) T = Some (k, code)"
proof (cases "find (\<lambda>e. snd e = code) T")
  case None
  with e show ?thesis by (auto simp: find_None_iff)
next
  case (Some e')
  then have "e' \<in> set T" and "snd e' = code"
    by (auto simp: find_Some_iff)
  with pf e have "e' = (k, code)"
    by (metis prefix_order.order_refl snd_conv)
  with Some show ?thesis by simp
qed

lemma find_proper_prefix:
  assumes pf: "\<forall>e1\<in>set T. \<forall>e2\<in>set T. e1 \<noteq> e2 \<longrightarrow> \<not> prefix (snd e1) (snd e2)"
    and e: "(k, code) \<in> set T" and p: "prefix p code" and neq: "p \<noteq> code"
  shows "find (\<lambda>e. snd e = p) T = None"
proof (cases "find (\<lambda>e. snd e = p) T")
  case None
  then show ?thesis .
next
  case (Some e')
  then have e': "e' \<in> set T" "snd e' = p"
    by (auto simp: find_Some_iff)
  with neq have "e' \<noteq> (k, code)" by auto
  with pf e e' p show ?thesis by (metis snd_conv)
qed

lemma decodeWalk_code:
  assumes pf: "\<forall>e1\<in>set T. \<forall>e2\<in>set T. e1 \<noteq> e2 \<longrightarrow> \<not> prefix (snd e1) (snd e2)"
    and e: "(k, code) \<in> set T" and dig: "digitString M code"
  shows "path @ sfx = code \<Longrightarrow> sfx \<noteq> [] \<Longrightarrow>
         decodeWalk M T path offset (sfx @ rest) =
           (case decodeWalk M T [] (offset + length sfx) rest of
              Inl err \<Rightarrow> Inl err
            | Inr syms \<Rightarrow> Inr (k # syms))"
proof (induction sfx arbitrary: path offset)
  case Nil
  then show ?case by simp
next
  case (Cons d sfx)
  from dig Cons.prems(1) have "\<exists>j<M. d = digit_char j"
    by (auto simp: digitString_def)
  then have valid: "d \<in> set (map digit_char [0 ..< M])"
    by auto
  show ?case
  proof (cases "sfx = []")
    case True
    with Cons.prems(1) have "path @ [d] = code" by simp
    then have "find (\<lambda>e. snd e = path @ [d]) T = Some (k, code)"
      using find_code [OF pf e] by simp
    then show ?thesis
      using valid True by (simp split: sum.split)
  next
    case False
    have pre: "prefix (path @ [d]) code"
      using Cons.prems(1) by (auto simp: prefix_def)
    have "path @ [d] \<noteq> code"
      using Cons.prems(1) False by auto
    from find_proper_prefix [OF pf e pre this]
    have none: "find (\<lambda>e. snd e = path @ [d]) T = None" .
    have ex: "list_ex (\<lambda>e. prefix (path @ [d]) (snd e)) T"
      unfolding list_ex_iff using e pre by (intro bexI [of _ "(k, code)"]) simp_all
    have "(path @ [d]) @ sfx = code"
      using Cons.prems(1) by simp
    from Cons.IH [OF this False, of "Suc offset"] show ?thesis
      using valid none ex by simp
  qed
qed

lemma decodeWalk_concat:
  assumes pf: "\<forall>e1\<in>set T. \<forall>e2\<in>set T. e1 \<noteq> e2 \<longrightarrow> \<not> prefix (snd e1) (snd e2)"
    and codes: "\<forall>c\<in>set text. \<exists>code. ([c], code) \<in> set T \<and> map_of T [c] = Some code
                  \<and> code \<noteq> [] \<and> digitString M code"
  shows "decodeWalk M T [] offset (concat (map (\<lambda>c. the (map_of T [c])) text))
           = Inr (map (\<lambda>c. [c]) text)"
  using codes
proof (induction "text" arbitrary: offset)
  case Nil
  then show ?case by simp
next
  case (Cons c cs)
  then obtain code where code: "([c], code) \<in> set T" "map_of T [c] = Some code" "code \<noteq> []"
    "digitString M code"
    by auto
  have "decodeWalk M T [] offset (code @ concat (map (\<lambda>c. the (map_of T [c])) cs))
          = (case decodeWalk M T [] (offset + length code) (concat (map (\<lambda>c. the (map_of T [c])) cs)) of
               Inl err \<Rightarrow> Inl err
             | Inr syms \<Rightarrow> Inr ([c] # syms))"
    by (rule decodeWalk_code [OF pf code(1) code(4)]) (simp_all add: code(3))
  also have "\<dots> = Inr ([c] # map (\<lambda>c. [c]) cs)"
    using Cons.IH [of "offset + length code"] Cons.prems by simp
  finally show ?case
    by (simp add: code(2))
qed

text \<open>
  Claim C6. For every text and every \<open>M\<close> with \<open>2 \<le> M \<le> 10\<close> (the valid range \<open>2 \<dots> 5\<close>
  included), in either version, decoding the payload that \<^const>\<open>encode\<close> returns with the
  table that it publishes gives back the symbols of the text, in order.
\<close>

theorem decode_encode:
  assumes "2 \<le> m" and "m \<le> 10"
  shows "\<exists>payload s'. encode (sort_nodes ckey) v text m s = Some (payload, s')
           \<and> decode (nat m) (huffmanCodes s') payload = Inr (map (\<lambda>c. [c]) text)"
proof (cases "text = []")
  case True
  then show ?thesis by (simp add: encode_def decode_def)
next
  case False
  from table_facts [OF permSort_sort_nodes assms False, of ckey v s]
  obtain s' where
    enc: "encode (sort_nodes ckey) v text m s = Some (concatCodes (huffmanCodes s') text, s')"
    and dist: "distinct (map fst (huffmanCodes s'))"
    and keys: "\<forall>c\<in>set text. [c] \<in> fst ` set (huffmanCodes s')"
    and codes: "\<forall>e\<in>set (huffmanCodes s'). snd e \<noteq> [] \<and> digitString (nat m) (snd e)"
    and pf: "\<forall>e1\<in>set (huffmanCodes s'). \<forall>e2\<in>set (huffmanCodes s').
                 e1 \<noteq> e2 \<longrightarrow> \<not> prefix (snd e1) (snd e2)"
    by blast
  let ?T = "huffmanCodes s'"
  have each: "\<exists>code. ([c], code) \<in> set ?T \<and> map_of ?T [c] = Some code
                 \<and> code \<noteq> [] \<and> digitString (nat m) code" if "c \<in> set text" for c
  proof -
    from that keys obtain code where code: "([c], code) \<in> set ?T"
      by force
    then have "map_of ?T [c] = Some code"
      using dist by simp
    with code codes show ?thesis by force
  qed
  then have all: "\<forall>c\<in>set text. \<exists>code. ([c], code) \<in> set ?T \<and> map_of ?T [c] = Some code
                 \<and> code \<noteq> [] \<and> digitString (nat m) code"
    by blast
  then have "\<forall>c\<in>set text. \<exists>code. map_of ?T [c] = Some code \<and> code \<noteq> []"
    by blast
  from concatCodes_total [OF this]
  have "decode (nat m) ?T (concatCodes ?T text) = Inr (map (\<lambda>c. [c]) text)"
    unfolding decode_def by (simp only: decodeWalk_concat [OF pf all])
  with enc show ?thesis by blast
qed

theorem decode_encode_witness:
  "(2::int) \<le> 3 \<and> (3::int) \<le> 10
   \<and> (\<exists>payload s'. encode (sort_nodes unitKey) AppTsx ''aabbbccccc'' 3 initial_state = Some (payload, s')
           \<and> decode (nat 3) (huffmanCodes s') payload = Inr (map (\<lambda>c. [c]) ''aabbbccccc''))
   \<and> map_option fst (encode (sort_nodes unitKey) AppTsx ''aabbbccccc'' 3 initial_state)
       = Some ''0011122222''
   \<and> decode 3 [(''a'', ''0''), (''b'', ''1''), (''c'', ''2'')] ''0011122222''
       = Inr [''a'', ''a'', ''b'', ''b'', ''b'', ''c'', ''c'', ''c'', ''c'', ''c'']"
proof -
  have h1: "(2::int) \<le> 3" and h2: "(3::int) \<le> 10" by simp_all
  have run: "map_option fst (encode (sort_nodes unitKey) AppTsx ''aabbbccccc'' 3 initial_state)
       = Some ''0011122222''"
    by code_simp
  have dec: "decode 3 [(''a'', ''0''), (''b'', ''1''), (''c'', ''2'')] ''0011122222''
       = Inr [''a'', ''a'', ''b'', ''b'', ''b'', ''c'', ''c'', ''c'', ''c'', ''c'']"
    by code_simp
  from decode_encode [OF h1 h2, of unitKey AppTsx "''aabbbccccc''" initial_state] h1 h2 run dec
  show ?thesis by (intro conjI)
qed

end
